theory Spec2Isabelle
  imports Main "HOL-Library.Word" "HOL-Library.Sublist"
begin

unbundle bit_operations_syntax

section \<open>The C runtime, as far as boundary\_scan.c uses it\<close>

text \<open>
  The embedding follows \<^verbatim>\<open>src/tools/fpgajtag/boundary_scan.c\<close>. A C string is a
  \<^typ>\<open>string\<close> without the terminating NUL; a \<^verbatim>\<open>char *\<close> that may be \<^verbatim>\<open>NULL\<close> is a
  \<^typ>\<open>string option\<close>. An array of pointers is a function from the index to the pointer,
  with the declared capacity checked at every access. What C leaves undefined (an index
  past an array, a \<^verbatim>\<open>NULL\<close> handed to \<^verbatim>\<open>strcmp\<close> or \<^verbatim>\<open>printf\<close>, a \<^verbatim>\<open>%d\<close> that
  does not fit an \<^verbatim>\<open>int\<close>) and \<^verbatim>\<open>exit(-1)\<close> are values of \<open>failure\<close>.
\<close>

datatype failure = OutOfBounds | NullDeref | IntOverflow | ExitOpenFailed

definition MAX_PINS :: nat where
  "MAX_PINS = 4096"

definition MAX_BOUNDARY_BITS :: nat where
  "MAX_BOUNDARY_BITS = 8192"

definition NUL :: char where
  "NUL = CHR 0x00"

text \<open>\<^verbatim>\<open>!strcmp(a, b)\<close>: both pointers are dereferenced.\<close>

definition strcmp_eq :: "string option \<Rightarrow> string option \<Rightarrow> failure + bool" where
  "strcmp_eq a b =
     (case a of None \<Rightarrow> Inl NullDeref
      | Some x \<Rightarrow> (case b of None \<Rightarrow> Inl NullDeref | Some y \<Rightarrow> Inr (x = y)))"

text \<open>\<^verbatim>\<open>tolower\<close> in the C locale.\<close>

definition tolower_c :: "char \<Rightarrow> char" where
  "tolower_c c =
     (if 65 \<le> (of_char c :: nat) \<and> (of_char c :: nat) \<le> 90
      then char_of ((of_char c :: nat) + 32) else c)"

definition match_ci :: "string \<Rightarrow> string \<Rightarrow> bool" where
  "match_ci needle hay =
     (length needle \<le> length hay
      \<and> map tolower_c (take (length needle) hay) = map tolower_c needle)"

text \<open>
  \<^verbatim>\<open>strcasestr(haystack, needle)\<close>: the suffix of the haystack that starts at the first
  case-insensitive occurrence of the needle, or \<^verbatim>\<open>NULL\<close>.
\<close>

fun strcasestr :: "string \<Rightarrow> string \<Rightarrow> string option" where
  "strcasestr [] needle = (if needle = [] then Some [] else None)"
| "strcasestr (h # hs) needle =
     (if match_ci needle (h # hs) then Some (h # hs) else strcasestr hs needle)"

section \<open>Global tables\<close>

record globals =
  pin_names :: "nat \<Rightarrow> string option"
  signal_names :: "nat \<Rightarrow> string option"
  pin_count :: int
  boundary_bit_type :: "nat \<Rightarrow> string option"
  boundary_bit_fullname :: "nat \<Rightarrow> string option"
  boundary_bit_pin :: "nat \<Rightarrow> string option"
  boundary_bit_count :: int
  part_name :: string

text \<open>The state of the globals at program start: zero-initialised.\<close>

definition globals0 :: globals where
  "globals0 = \<lparr> pin_names = (\<lambda>_. None), signal_names = (\<lambda>_. None), pin_count = 0,
     boundary_bit_type = (\<lambda>_. None), boundary_bit_fullname = (\<lambda>_. None),
     boundary_bit_pin = (\<lambda>_. None), boundary_bit_count = 0, part_name = [] \<rparr>"

text \<open>What the program writes to stdout and stderr.\<close>

datatype event =
    WarnNoXDC
  | WarnNoBSDL
  | AssumedPart string int
  | ApplyingSensitivity string
  | AddingSensitivity string
  | SignalsChanged nat
  | BitReport nat string string string int
  | DumpBytes nat string "8 word list" nat

section \<open>Reading a file line by line\<close>

text \<open>What \<^verbatim>\<open>fopen(path, "r")\<close> finds at the path handed to a parser.\<close>

datatype fopen_result = NoSuchFile | File string

text \<open>
  \<^verbatim>\<open>fgets(line, 1024, f)\<close> reads at most 1023 bytes and stops after a newline;
  \<open>fgets_chunk 1023 f\<close> is what it reads from the unread rest \<open>f\<close> of the file.
\<close>

fun fgets_chunk :: "nat \<Rightarrow> string \<Rightarrow> string" where
  "fgets_chunk 0 f = []"
| "fgets_chunk (Suc n) [] = []"
| "fgets_chunk (Suc n) (c # cs) = (if c = CHR 0x0A then [c] else c # fgets_chunk n cs)"

section \<open>sscanf, for the two formats of parse\_bsdl\<close>

text \<open>
  The directives of the C standard's \<^verbatim>\<open>sscanf\<close> that the two format strings use, each
  on the unread rest of the input: white space in the format skips any white space, an
  ordinary character must be the next character, \<^verbatim>\<open>%s\<close> and \<^verbatim>\<open>%d\<close> skip white space
  first, \<^verbatim>\<open>%[\<close> does not, and a conversion that reads no character fails.
\<close>

definition isspace_c :: "char \<Rightarrow> bool" where
  "isspace_c c = (c = CHR '' '' \<or> (9 \<le> (of_char c :: nat) \<and> (of_char c :: nat) \<le> 13))"

definition isdigit_c :: "char \<Rightarrow> bool" where
  "isdigit_c c = (48 \<le> (of_char c :: nat) \<and> (of_char c :: nat) \<le> 57)"

definition scan_ws :: "string \<Rightarrow> string" where
  "scan_ws s = dropWhile isspace_c s"

fun scan_lit :: "string \<Rightarrow> string \<Rightarrow> string option" where
  "scan_lit [] s = Some s"
| "scan_lit (c # cs) [] = None"
| "scan_lit (c # cs) (x # xs) = (if c = x then scan_lit cs xs else None)"

definition scan_set :: "(char \<Rightarrow> bool) \<Rightarrow> string \<Rightarrow> (string \<times> string) option" where
  "scan_set P s = (if takeWhile P s = [] then None else Some (takeWhile P s, dropWhile P s))"

definition scan_str :: "string \<Rightarrow> (string \<times> string) option" where
  "scan_str s = scan_set (\<lambda>c. \<not> isspace_c c) (scan_ws s)"

definition decimal :: "string \<Rightarrow> int" where
  "decimal ds = foldl (\<lambda>a d. 10 * a + (int (of_char d) - 48)) 0 ds"

definition scan_int :: "string \<Rightarrow> (int \<times> string) option" where
  "scan_int s =
     (let s1 = scan_ws s;
          neg = (s1 \<noteq> [] \<and> hd s1 = CHR ''-'');
          s2 = (if s1 \<noteq> [] \<and> (hd s1 = CHR ''-'' \<or> hd s1 = CHR ''+'') then tl s1 else s1)
      in if takeWhile isdigit_c s2 = [] then None
         else Some ((if neg then - decimal (takeWhile isdigit_c s2)
                     else decimal (takeWhile isdigit_c s2)),
                    dropWhile isdigit_c s2))"

definition fits_int :: "int \<Rightarrow> bool" where
  "fits_int n = (- 2147483648 \<le> n \<and> n \<le> 2147483647)"

text \<open>
  \<^verbatim>\<open>sscanf(line, "attribute BOUNDARY_LENGTH of %s : entity is %d;", part_name,
  &boundary_bit_count)\<close>. The result tells how many items were assigned (a return value
  of 0 or EOF, of 1, of 2) and what was stored: an item is stored as soon as it is
  converted, whatever follows.
\<close>

datatype header_scan = NoItem | OneItem string | TwoItems string int

text \<open>The directives before \<^verbatim>\<open>%s\<close>, then \<^verbatim>\<open>%s\<close> itself.\<close>

definition scan_header_name :: "string \<Rightarrow> (string \<times> string) option" where
  "scan_header_name line =
     Option.bind (scan_lit ''attribute'' line) (\<lambda>s1.
     Option.bind (scan_lit ''BOUNDARY_LENGTH'' (scan_ws s1)) (\<lambda>s2.
     Option.bind (scan_lit ''of'' (scan_ws s2)) (\<lambda>s3.
     scan_str (scan_ws s3))))"

text \<open>The directives between \<^verbatim>\<open>%s\<close> and \<^verbatim>\<open>%d\<close>, then \<^verbatim>\<open>%d\<close> itself.\<close>

definition scan_header_count :: "string \<Rightarrow> (int \<times> string) option" where
  "scan_header_count s4 =
     Option.bind (scan_lit '':'' (scan_ws s4)) (\<lambda>s5.
     Option.bind (scan_lit ''entity'' (scan_ws s5)) (\<lambda>s6.
     Option.bind (scan_lit ''is'' (scan_ws s6)) (\<lambda>s7.
     scan_int (scan_ws s7))))"

definition sscanf_header :: "string \<Rightarrow> failure + header_scan" where
  "sscanf_header line =
     (case scan_header_name line of
        None \<Rightarrow> Inr NoItem
      | Some ns \<Rightarrow>
          (case scan_header_count (snd ns) of
             None \<Rightarrow> Inr (OneItem (fst ns))
           | Some cs \<Rightarrow>
               if fits_int (fst cs) then Inr (TwoItems (fst ns) (fst cs)) else Inl IntOverflow))"

text \<open>
  \<^verbatim>\<open>sscanf(line, "%*[ \t]\"%*[ \t]%d (BC_%*d, %[^,], %[^,], %[^,)]", &bit_number,
  bit_name, bit_type, bit_default)\<close>. The four items are locals that the caller reads
  only when the return value is 4, so the result is the four items, or nothing.
\<close>

definition blank :: "char \<Rightarrow> bool" where
  "blank c = (c = CHR '' '' \<or> c = CHR 0x09)"

text \<open>\<^verbatim>\<open>%*[ \t]\"%*[ \t]%d\<close>\<close>

definition scan_bit_number :: "string \<Rightarrow> (int \<times> string) option" where
  "scan_bit_number line =
     Option.bind (scan_set blank line) (\<lambda>b1.
     Option.bind (scan_lit [CHR 0x22] (snd b1)) (\<lambda>s2.
     Option.bind (scan_set blank s2) (\<lambda>b2.
     scan_int (snd b2))))"

text \<open>\<^verbatim>\<open> (BC_%*d\<close>\<close>

definition scan_bit_cell :: "string \<Rightarrow> string option" where
  "scan_bit_cell s4 =
     Option.bind (scan_lit ''(BC_'' (scan_ws s4)) (\<lambda>s5.
     Option.bind (scan_int s5) (\<lambda>bc. Some (snd bc)))"

text \<open>\<^verbatim>\<open>, %[^,]\<close> and \<^verbatim>\<open>, %[^,)]\<close>: a comma, white space, then the scan set \<open>P\<close>.\<close>

definition scan_bit_field :: "(char \<Rightarrow> bool) \<Rightarrow> string \<Rightarrow> (string \<times> string) option" where
  "scan_bit_field P s = Option.bind (scan_lit '','' s) (\<lambda>s'. scan_set P (scan_ws s'))"

definition scan_bit_fields :: "string \<Rightarrow> (string \<times> string \<times> string) option" where
  "scan_bit_fields s6 =
     Option.bind (scan_bit_field (\<lambda>c. c \<noteq> CHR '','') s6) (\<lambda>bit_name.
     Option.bind (scan_bit_field (\<lambda>c. c \<noteq> CHR '','') (snd bit_name)) (\<lambda>bit_type.
     Option.bind (scan_bit_field (\<lambda>c. c \<noteq> CHR '','' \<and> c \<noteq> CHR '')'') (snd bit_type))
       (\<lambda>bit_default. Some (fst bit_name, fst bit_type, fst bit_default))))"

definition sscanf_bit :: "string \<Rightarrow> failure + (int \<times> string \<times> string \<times> string) option" where
  "sscanf_bit line =
     (case scan_bit_number line of
        None \<Rightarrow> Inr None
      | Some n \<Rightarrow>
          if \<not> fits_int (fst n) then Inl IntOverflow
          else Inr (Option.bind (scan_bit_cell (snd n)) (\<lambda>s6.
                    Option.bind (scan_bit_fields s6) (\<lambda>fields. Some (fst n, fields)))))"

section \<open>parse\_bsdl\<close>

text \<open>
  \<^verbatim>\<open>char *bit_pin=bit_name; for(int i=0;bit_name[i];i++) if (bit_name[i]=='_')
  bit_pin=&bit_name[i+1];\<close> on the rest of \<^verbatim>\<open>bit_name\<close> from index \<open>i\<close> on.
\<close>

fun bit_pin_loop :: "string \<Rightarrow> string \<Rightarrow> string" where
  "bit_pin_loop [] bit_pin = bit_pin"
| "bit_pin_loop (c # cs) bit_pin = bit_pin_loop cs (if c = CHR ''_'' then cs else bit_pin)"

text \<open>The body of the while loop of \<^verbatim>\<open>parse_bsdl\<close>, for one line.\<close>

definition parse_bsdl_line :: "string \<Rightarrow> globals \<times> event list \<Rightarrow> failure + globals \<times> event list" where
  "parse_bsdl_line line acc =
     (case sscanf_header line of
        Inl e \<Rightarrow> Inl e
      | Inr h \<Rightarrow>
          (case sscanf_bit line of
             Inl e \<Rightarrow> Inl e
           | Inr b \<Rightarrow>
               (let acc1 =
                      (case h of
                         NoItem \<Rightarrow> acc
                       | OneItem name \<Rightarrow> ((fst acc)\<lparr> part_name := name \<rparr>, snd acc)
                       | TwoItems name n \<Rightarrow>
                           ((fst acc)\<lparr> part_name := name, boundary_bit_count := n \<rparr>,
                            snd acc @ [AssumedPart name n]))
                in case b of
                     None \<Rightarrow> Inr acc1
                   | Some (bit_number, bit_name, bit_type, bit_default) \<Rightarrow>
                       if 0 \<le> bit_number \<and> bit_number < int MAX_BOUNDARY_BITS then
                         Inr ((fst acc1)\<lparr>
                                boundary_bit_type :=
                                  (boundary_bit_type (fst acc1))(nat bit_number := Some bit_type),
                                boundary_bit_fullname :=
                                  (boundary_bit_fullname (fst acc1))(nat bit_number := Some bit_name),
                                boundary_bit_pin :=
                                  (boundary_bit_pin (fst acc1))
                                    (nat bit_number := Some (bit_pin_loop bit_name bit_name)) \<rparr>,
                              snd acc1)
                       else Inr acc1)))"

text \<open>
  \<^verbatim>\<open>line[0]=0; fgets(line,1024,f); while(line[0]) { ...; line[0]=0; fgets(line,1024,f); }\<close>
  on the unread rest of the file. \<^verbatim>\<open>sscanf\<close> sees the line up to its first NUL byte.
\<close>

function parse_bsdl_loop :: "string \<Rightarrow> globals \<times> event list \<Rightarrow> failure + globals \<times> event list" where
  "parse_bsdl_loop f acc =
     (if takeWhile (\<lambda>c. c \<noteq> NUL) (fgets_chunk 1023 f) = [] then Inr acc
      else (case parse_bsdl_line (takeWhile (\<lambda>c. c \<noteq> NUL) (fgets_chunk 1023 f)) acc of
              Inl e \<Rightarrow> Inl e
            | Inr acc' \<Rightarrow> parse_bsdl_loop (drop (length (fgets_chunk 1023 f)) f) acc'))"
  by pat_completeness auto
termination
proof (relation "measure (\<lambda>(f, acc). length f)")
  show "wf (measure (\<lambda>(f, acc). length f))"
    by simp
next
  fix f :: string and acc acc' :: "globals \<times> event list"
  assume read: "takeWhile (\<lambda>c. c \<noteq> NUL) (fgets_chunk 1023 f) \<noteq> []"
  have bound: "length (fgets_chunk n h) \<le> length h" for n h
    by (induction n h rule: fgets_chunk.induct) auto
  from read have "fgets_chunk 1023 f \<noteq> []"
    by auto
  with bound [of 1023 f]
  show "((drop (length (fgets_chunk 1023 f)) f, acc'), (f, acc)) \<in> measure (\<lambda>(f, acc). length f)"
    by (cases "fgets_chunk 1023 f") auto
qed

definition parse_bsdl :: "fopen_result \<Rightarrow> globals \<times> event list \<Rightarrow> failure + globals \<times> event list" where
  "parse_bsdl bsdl acc =
     (case bsdl of NoSuchFile \<Rightarrow> Inl ExitOpenFailed | File f \<Rightarrow> parse_bsdl_loop f acc)"

section \<open>parse\_xdc\<close>

text \<open>
  \<^verbatim>\<open>parse_xdc\<close> works inside \<^verbatim>\<open>char line[1024]\<close>: it keeps pointers into the buffer,
  writes NUL bytes into it and steps over the keyword with a fixed offset. The buffer is
  the list of its 1024 bytes and a pointer into it is an index; reading at or past the end
  of the buffer is \<open>OutOfBounds\<close>. \<open>cstring_at buf p\<close> is the C string that starts at
  \<open>buf + p\<close>.
\<close>

definition cstring_at :: "char list \<Rightarrow> nat \<Rightarrow> failure + string" where
  "cstring_at buf p =
     (if NUL \<in> set (drop p buf) then Inr (takeWhile (\<lambda>c. c \<noteq> NUL) (drop p buf))
      else Inl OutOfBounds)"

text \<open>\<^verbatim>\<open>strstr(line, needle)\<close>, as the index of the first occurrence in the line.\<close>

fun strstr_from :: "string \<Rightarrow> string \<Rightarrow> nat \<Rightarrow> nat option" where
  "strstr_from [] needle k = (if needle = [] then Some k else None)"
| "strstr_from (h # hs) needle k =
     (if take (length needle) (h # hs) = needle then Some k
      else strstr_from hs needle (Suc k))"

definition strstr :: "char list \<Rightarrow> string \<Rightarrow> failure + nat option" where
  "strstr buf needle =
     (case cstring_at buf 0 of Inl e \<Rightarrow> Inl e | Inr s \<Rightarrow> Inr (strstr_from s needle 0))"

text \<open>
  \<^verbatim>\<open>for(int i=0;pin_name[i];i++) if (pin_name[i]==' ') { pin_name[i]=0; break; }\<close>
\<close>

function pin_name_loop :: "char list \<Rightarrow> nat \<Rightarrow> nat \<Rightarrow> failure + char list" where
  "pin_name_loop buf pin_name i =
     (if length buf \<le> pin_name + i then Inl OutOfBounds
      else if buf ! (pin_name + i) = NUL then Inr buf
      else if buf ! (pin_name + i) = CHR '' '' then Inr (buf[pin_name + i := NUL])
      else pin_name_loop buf pin_name (Suc i))"
  by pat_completeness auto
termination
  by (relation "measure (\<lambda>(buf, pin_name, i). length buf - (pin_name + i))") auto

text \<open>
  \<^verbatim>\<open>for(int i=0;signal_name[i];i++) { if (signal_name[i]=='[') opening_square_brackets++;
  if (signal_name[i]==']') { if (opening_square_brackets) opening_square_brackets--;
  else { signal_name[i]=0; break; } } }\<close>
\<close>

function signal_name_loop :: "char list \<Rightarrow> nat \<Rightarrow> nat \<Rightarrow> nat \<Rightarrow> failure + char list" where
  "signal_name_loop buf signal_name i opening_square_brackets =
     (if length buf \<le> signal_name + i then Inl OutOfBounds
      else if buf ! (signal_name + i) = NUL then Inr buf
      else if buf ! (signal_name + i) = CHR ''[''
        then signal_name_loop buf signal_name (Suc i) (Suc opening_square_brackets)
      else if buf ! (signal_name + i) = CHR '']''
        then (if opening_square_brackets \<noteq> 0
              then signal_name_loop buf signal_name (Suc i) (opening_square_brackets - 1)
              else Inr (buf[signal_name + i := NUL]))
      else signal_name_loop buf signal_name (Suc i) opening_square_brackets)"
  by pat_completeness auto
termination
  by (relation "measure (\<lambda>(buf, signal_name, i, n). length buf - (signal_name + i))") auto

text \<open>\<^verbatim>\<open>while (signal_name&&signal_name[0]=='{') signal_name++;\<close>\<close>

function skip_braces :: "char list \<Rightarrow> nat \<Rightarrow> failure + nat" where
  "skip_braces buf signal_name =
     (if length buf \<le> signal_name then Inl OutOfBounds
      else if buf ! signal_name = CHR ''{'' then skip_braces buf (Suc signal_name)
      else Inr signal_name)"
  by pat_completeness auto
termination
  by (relation "measure (\<lambda>(buf, signal_name). length buf - signal_name)") auto

text \<open>
  \<^verbatim>\<open>while (signal_name&&signal_name[0]&&signal_name[strlen(signal_name)-1]=='}')
  signal_name[strlen(signal_name)-1]=0;\<close>
\<close>

function trim_braces :: "char list \<Rightarrow> nat \<Rightarrow> failure + char list" where
  "trim_braces buf signal_name =
     (case cstring_at buf signal_name of
        Inl e \<Rightarrow> Inl e
      | Inr str \<Rightarrow>
          if str \<noteq> [] \<and> last str = CHR ''}''
          then trim_braces (buf[signal_name + length str - 1 := NUL]) signal_name
          else Inr buf)"
  by pat_completeness auto
termination
proof (relation "measure (\<lambda>(buf, s). length (takeWhile (\<lambda>c. c \<noteq> NUL) (drop s buf)))")
  show "wf (measure (\<lambda>(buf, s). length (takeWhile (\<lambda>c. c \<noteq> NUL) (drop s buf))))"
    by simp
next
  fix buf :: "char list" and s :: nat and str :: string
  assume at: "cstring_at buf s = Inr str" and ne: "str \<noteq> [] \<and> last str = CHR ''}''"
  have cut: "takeWhile P (xs[k := v]) = take k xs"
    if "k < length (takeWhile P xs)" "\<not> P v" for P :: "char \<Rightarrow> bool" and xs k v
    using that
  proof (induction xs arbitrary: k)
    case Nil
    then show ?case by simp
  next
    case (Cons x xs)
    then show ?case by (cases k) (auto split: if_splits)
  qed
  from at have str: "str = takeWhile (\<lambda>c. c \<noteq> NUL) (drop s buf)"
    by (auto simp: cstring_at_def split: if_splits)
  with ne have pos: "length str - 1 < length (takeWhile (\<lambda>c. c \<noteq> NUL) (drop s buf))"
    by (cases str) auto
  have "drop s (buf[s + length str - 1 := NUL]) = (drop s buf)[length str - 1 := NUL]"
    using ne by (cases str) (auto simp: drop_update_swap)
  then have "takeWhile (\<lambda>c. c \<noteq> NUL) (drop s (buf[s + length str - 1 := NUL]))
      = take (length str - 1) (drop s buf)"
    using cut [OF pos, of NUL] by simp
  moreover have "length str \<le> length (drop s buf)"
    unfolding str by (rule length_takeWhile_le)
  ultimately
  show "((buf[s + length str - 1 := NUL], s), (buf, s))
      \<in> measure (\<lambda>(buf, s). length (takeWhile (\<lambda>c. c \<noteq> NUL) (drop s buf)))"
    using pos str by simp
qed

text \<open>
  Lines 44--64: the two \<^verbatim>\<open>strstr\<close> calls on the untouched line, then the two
  terminating loops. The result is the buffer with the pointers \<^verbatim>\<open>pin_name\<close> and
  \<^verbatim>\<open>signal_name\<close> (\<open>None\<close> is \<^verbatim>\<open>NULL\<close>); \<^verbatim>\<open>strlen("PACKAGE_PIN ")\<close> is 12 and
  \<^verbatim>\<open>strlen("get_ports ")\<close> is 10.
\<close>

definition xdc_tokens :: "char list \<Rightarrow> failure + char list \<times> nat option \<times> nat option" where
  "xdc_tokens line =
     (case strstr line ''PACKAGE_PIN'' of
        Inl e \<Rightarrow> Inl e
      | Inr package_pin \<Rightarrow>
          (case strstr line ''get_ports'' of
             Inl e \<Rightarrow> Inl e
           | Inr get_ports \<Rightarrow>
               (case (case package_pin of
                        None \<Rightarrow> Inr line
                      | Some p \<Rightarrow> pin_name_loop line (p + 12) 0)
                of Inl e \<Rightarrow> Inl e
                 | Inr line1 \<Rightarrow>
                     (case (case get_ports of
                              None \<Rightarrow> Inr line1
                            | Some q \<Rightarrow> signal_name_loop line1 (q + 10) 0 0)
                      of Inl e \<Rightarrow> Inl e
                       | Inr line2 \<Rightarrow>
                           Inr (line2, map_option (\<lambda>p. p + 12) package_pin,
                                map_option (\<lambda>q. q + 10) get_ports)))))"

text \<open>Lines 66--69: the braces are trimmed; the result is the buffer and \<^verbatim>\<open>signal_name\<close>.\<close>

definition xdc_trim :: "char list \<Rightarrow> nat option \<Rightarrow> failure + char list \<times> nat option" where
  "xdc_trim line signal_name =
     (case signal_name of
        None \<Rightarrow> Inr (line, None)
      | Some s \<Rightarrow>
          (case skip_braces line s of
             Inl e \<Rightarrow> Inl e
           | Inr s' \<Rightarrow>
               (case trim_braces line s' of
                  Inl e \<Rightarrow> Inl e
                | Inr line' \<Rightarrow> Inr (line', Some s'))))"

text \<open>
  The mapping a line gives, if any: the two strings that \<^verbatim>\<open>strdup\<close> copies at lines
  73--74, with the buffer as the line leaves it.
\<close>

definition xdc_mapping :: "char list \<Rightarrow> failure + char list \<times> (string \<times> string) option" where
  "xdc_mapping line =
     (if line ! 0 = CHR ''#'' then Inr (line, None)
      else (case xdc_tokens line of
              Inl e \<Rightarrow> Inl e
            | Inr t \<Rightarrow>
                (case xdc_trim (fst t) (snd (snd t)) of
                   Inl e \<Rightarrow> Inl e
                 | Inr u \<Rightarrow>
                     (case fst (snd t) of
                        None \<Rightarrow> Inr (fst u, None)
                      | Some pin_name \<Rightarrow>
                          (case snd u of
                             None \<Rightarrow> Inr (fst u, None)
                           | Some signal_name \<Rightarrow>
                               (case cstring_at (fst u) pin_name of
                                  Inl e \<Rightarrow> Inl e
                                | Inr pin \<Rightarrow>
                                    (case cstring_at (fst u) signal_name of
                                       Inl e \<Rightarrow> Inl e
                                     | Inr sig \<Rightarrow> Inr (fst u, Some (pin, sig)))))))))"

text \<open>
  Lines 71--76: \<^verbatim>\<open>pin_names[pin_count]=strdup(pin_name);
  signal_names[pin_count]=strdup(signal_name); pin_count++;\<close> on arrays of
  \<^verbatim>\<open>MAX_PINS\<close> pointers.
\<close>

definition add_pin :: "string \<times> string \<Rightarrow> globals \<Rightarrow> failure + globals" where
  "add_pin m g =
     (if pin_count g < 0 \<or> int MAX_PINS \<le> pin_count g then Inl OutOfBounds
      else Inr (g\<lparr> pin_names := (pin_names g)(nat (pin_count g) := Some (fst m)),
                   signal_names := (signal_names g)(nat (pin_count g) := Some (snd m)),
                   pin_count := pin_count g + 1 \<rparr>))"

text \<open>The body of the while loop of \<^verbatim>\<open>parse_xdc\<close>, for the line in the buffer.\<close>

definition parse_xdc_line :: "char list \<Rightarrow> globals \<Rightarrow> failure + char list \<times> globals" where
  "parse_xdc_line line g =
     (case xdc_mapping line of
        Inl e \<Rightarrow> Inl e
      | Inr lm \<Rightarrow>
          (case snd lm of
             None \<Rightarrow> Inr (fst lm, g)
           | Some m \<Rightarrow>
               (case add_pin m g of
                  Inl e \<Rightarrow> Inl e
                | Inr g' \<Rightarrow> Inr (fst lm, g'))))"

text \<open>
  \<^verbatim>\<open>fgets\<close> overwrites the start of the buffer with the bytes read and a NUL and leaves
  the rest as it was.
\<close>

definition fgets_into :: "char list \<Rightarrow> string \<Rightarrow> char list" where
  "fgets_into buf chunk = chunk @ NUL # drop (Suc (length chunk)) buf"

text \<open>
  \<^verbatim>\<open>line[0]=0; fgets(line,1024,f); while(line[0]) { ...; line[0]=0; fgets(line,1024,f); }\<close>
  on the unread rest of the file: at the end of the file \<^verbatim>\<open>fgets\<close> leaves the NUL in
  \<^verbatim>\<open>line[0]\<close>.
\<close>

function parse_xdc_loop :: "string \<Rightarrow> char list \<Rightarrow> globals \<Rightarrow> failure + globals" where
  "parse_xdc_loop f line g =
     (if fgets_chunk 1023 f = [] then Inr g
      else if hd (fgets_chunk 1023 f) = NUL then Inr g
      else (case parse_xdc_line (fgets_into line (fgets_chunk 1023 f)) g of
              Inl e \<Rightarrow> Inl e
            | Inr lg \<Rightarrow> parse_xdc_loop (drop (length (fgets_chunk 1023 f)) f) (fst lg) (snd lg)))"
  by pat_completeness auto
termination
proof (relation "measure (\<lambda>(f, line, g). length f)")
  show "wf (measure (\<lambda>(f, line, g). length f))"
    by simp
next
  fix f :: string and line line' :: "char list" and g g' :: globals and lg
  assume read: "fgets_chunk 1023 f \<noteq> []"
  have bound: "length (fgets_chunk n h) \<le> length h" for n h
    by (induction n h rule: fgets_chunk.induct) auto
  from read bound [of 1023 f]
  show "((drop (length (fgets_chunk 1023 f)) f, fst lg, snd lg), (f, line, g))
      \<in> measure (\<lambda>(f, line, g). length f)"
    by (cases "fgets_chunk 1023 f") auto
qed

text \<open>\<open>line0\<close> is what the stack holds where \<^verbatim>\<open>line\<close> is allocated.\<close>

definition parse_xdc :: "fopen_result \<Rightarrow> char list \<Rightarrow> globals \<Rightarrow> failure + globals" where
  "parse_xdc xdc line0 g =
     (case xdc of NoSuchFile \<Rightarrow> Inl ExitOpenFailed | File f \<Rightarrow> parse_xdc_loop f line0 g)"

section \<open>The bit resolver (lines 153--173 of xilinx\_boundaryscan)\<close>

record resolver =
  bbit_names :: "nat \<Rightarrow> string option"
  bbit_ignore :: "nat \<Rightarrow> bool"
  bbit_show :: "nat \<Rightarrow> bool"

text \<open>
  \<^verbatim>\<open>for(int j=0;j<pin_count;j++) if (!strcmp(pin_names[j],boundary_bit_pin[i])) s=signal_names[j];\<close>
\<close>

function signal_loop :: "globals \<Rightarrow> nat \<Rightarrow> nat \<Rightarrow> string option \<Rightarrow> failure + string option" where
  "signal_loop g i j s =
     (if int j < pin_count g then
        (if MAX_PINS \<le> j \<or> MAX_BOUNDARY_BITS \<le> i then Inl OutOfBounds
         else (case strcmp_eq (pin_names g j) (boundary_bit_pin g i) of
                 Inl e \<Rightarrow> Inl e
               | Inr eq \<Rightarrow> signal_loop g i (Suc j) (if eq then signal_names g j else s)))
      else Inr s)"
  by pat_completeness auto
termination
  by (relation "measure (\<lambda>(g, i, j, s). nat (pin_count g - int j))") auto

text \<open>The body of the resolver loop for bit \<open>i\<close>; the flags are C ints holding 0 or 1.\<close>

definition resolve_bit ::
  "globals \<Rightarrow> string option \<Rightarrow> nat \<Rightarrow> resolver \<times> event list \<Rightarrow> failure + resolver \<times> event list" where
  "resolve_bit g sensitivity i acc =
     (case signal_loop g i 0 (Some ''<unknown>'') of
        Inl e \<Rightarrow> Inl e
      | Inr s \<Rightarrow>
          if MAX_BOUNDARY_BITS \<le> i then Inl OutOfBounds
          else (case strcmp_eq (Some ''CLK_IN'') s of
             Inl e \<Rightarrow> Inl e
           | Inr clk \<Rightarrow>
               (case (case sensitivity of
                        None \<Rightarrow> Inr (clk, [])
                      | Some sens \<Rightarrow>
                          (case s of
                             None \<Rightarrow> Inl NullDeref
                           | Some sig \<Rightarrow>
                               Inr (if strcasestr sens sig \<noteq> None
                                    then (False, (if i = 0 then [ApplyingSensitivity sens] else [])
                                                 @ [AddingSensitivity sig])
                                    else (True, (if i = 0 then [ApplyingSensitivity sens] else [])))))
                of Inl e \<Rightarrow> Inl e
                 | Inr (ign, evs) \<Rightarrow>
                     (case strcmp_eq (boundary_bit_type g i) (Some ''input'') of
                        Inl e \<Rightarrow> Inl e
                      | Inr inp \<Rightarrow>
                          Inr ((fst acc)\<lparr> bbit_names := (bbit_names (fst acc))(i := s),
                                          bbit_ignore := (bbit_ignore (fst acc))(i := ign),
                                          bbit_show := (bbit_show (fst acc))(i := inp) \<rparr>,
                               snd acc @ evs)))))"

text \<open>\<^verbatim>\<open>for(int i=0;i<boundary_bit_count;i++) { ... }\<close>\<close>

function resolver_loop ::
  "globals \<Rightarrow> string option \<Rightarrow> nat \<Rightarrow> resolver \<times> event list \<Rightarrow> failure + resolver \<times> event list" where
  "resolver_loop g sensitivity i acc =
     (if int i < boundary_bit_count g then
        (case resolve_bit g sensitivity i acc of
           Inl e \<Rightarrow> Inl e
         | Inr acc' \<Rightarrow> resolver_loop g sensitivity (Suc i) acc')
      else Inr acc)"
  by pat_completeness auto
termination
  by (relation "measure (\<lambda>(g, sensitivity, i, acc). nat (boundary_bit_count g - int i))") auto

section \<open>The scan monitor (the do-while loop of xilinx\_boundaryscan)\<close>

text \<open>
  \<^verbatim>\<open>char last_rdata[1024]\<close> and \<^verbatim>\<open>first_time\<close>. The array is a list of its 1024 bytes;
  before the first \<^verbatim>\<open>bcopy\<close> its content is whatever the stack held.
\<close>

record monitor_state =
  last_rdata :: "8 word list"
  first_time :: bool

text \<open>
  \<^verbatim>\<open>int value=(rdata[(i)>>3]>>((i)&7))&1;\<close> on \<^verbatim>\<open>uint8_t *rdata\<close>, and the same
  expression on \<^verbatim>\<open>char last_rdata[]\<close>, whose bytes are promoted with their sign.
\<close>

definition value_of :: "8 word list \<Rightarrow> nat \<Rightarrow> int" where
  "value_of rdata i = drop_bit (i AND 7) (uint (rdata ! drop_bit 3 i)) AND 1"

definition last_value_of :: "8 word list \<Rightarrow> nat \<Rightarrow> int" where
  "last_value_of prev i = drop_bit (i AND 7) (sint (prev ! drop_bit 3 i)) AND 1"

text \<open>
  \<^verbatim>\<open>for(int i=0;i<boundary_bit_count;i++) { ... }\<close> of the monitor; the accumulator is
  \<^verbatim>\<open>count_shown\<close> and the lines printed so far.
\<close>

function bit_loop ::
  "globals \<Rightarrow> resolver \<Rightarrow> string option \<Rightarrow> monitor_state \<Rightarrow> 8 word list \<Rightarrow> nat
     \<Rightarrow> nat \<Rightarrow> nat \<times> event list \<Rightarrow> failure + nat \<times> event list" where
  "bit_loop g r sensitivity st rdata time_delta i acc =
     (if int i < boundary_bit_count g then
        (if length rdata \<le> drop_bit 3 i \<or> length (last_rdata st) \<le> drop_bit 3 i
            \<or> MAX_BOUNDARY_BITS \<le> i
         then Inl OutOfBounds
         else if bbit_show r i then
           (if first_time st \<or> last_value_of (last_rdata st) i \<noteq> value_of rdata i then
              (if (first_time st \<and> sensitivity = None) \<or> \<not> bbit_ignore r i then
                 (case boundary_bit_fullname g i of
                    None \<Rightarrow> Inl NullDeref
                  | Some fullname \<Rightarrow>
                      (case boundary_bit_pin g i of
                         None \<Rightarrow> Inl NullDeref
                       | Some pin \<Rightarrow>
                           (case bbit_names r i of
                              None \<Rightarrow> Inl NullDeref
                            | Some signal \<Rightarrow>
                                bit_loop g r sensitivity st rdata time_delta (Suc i)
                                  (Suc (fst acc),
                                   snd acc
                                   @ (if fst acc = 0 then [SignalsChanged time_delta] else [])
                                   @ [BitReport i fullname pin signal (value_of rdata i)]))))
               else bit_loop g r sensitivity st rdata time_delta (Suc i) acc)
            else bit_loop g r sensitivity st rdata time_delta (Suc i) acc)
         else bit_loop g r sensitivity st rdata time_delta (Suc i) acc)
      else Inr acc)"
  by pat_completeness auto
termination
  by (relation "measure (\<lambda>(g, r, sensitivity, st, rdata, time_delta, i, acc).
        nat (boundary_bit_count g - int i))") auto

text \<open>
  Modelled from the spec: \<^verbatim>\<open>dump_bytes\<close> is declared in boundary\_scan.c and defined
  elsewhere; the spec has it print a raw dump of the first \<open>count\<close> bytes it is handed.
\<close>

definition dump_bytes :: "nat \<Rightarrow> string \<Rightarrow> 8 word list \<Rightarrow> nat \<Rightarrow> failure + event list" where
  "dump_bytes col msg b count =
     (if length b < count then Inl OutOfBounds else Inr [DumpBytes col msg (take count b) count])"

text \<open>
  One pass of the do-while body from \<^verbatim>\<open>if (!bsdl)\<close> on. The capture \<open>rdata\<close> is what
  \<^verbatim>\<open>write_pattern\<close> returned and \<open>time_delta\<close> what the clock gave; \<open>bsdl\<close> tells
  whether the \<^verbatim>\<open>bsdl\<close> argument is a non-NULL pointer.
\<close>

definition monitor_iteration ::
  "globals \<Rightarrow> resolver \<Rightarrow> bool \<Rightarrow> string option \<Rightarrow> monitor_state \<Rightarrow> 8 word list \<Rightarrow> nat
     \<Rightarrow> failure + event list \<times> monitor_state" where
  "monitor_iteration g r bsdl sensitivity st rdata time_delta =
     (case (if \<not> bsdl then dump_bytes 0 ''boundary data'' rdata 256
            else (case bit_loop g r sensitivity st rdata time_delta 0 (0, []) of
                    Inl e \<Rightarrow> Inl e
                  | Inr acc \<Rightarrow> Inr (snd acc)))
      of Inl e \<Rightarrow> Inl e
       | Inr out \<Rightarrow>
           if length rdata < 1024 then Inl OutOfBounds
           else Inr (out, \<lparr> last_rdata = take 1024 rdata, first_time = False \<rparr>))"

text \<open>
  \<^verbatim>\<open>do { ... } while(loop);\<close> with \<^verbatim>\<open>loop\<close> always 1: the loop never ends by itself.
  The run is modelled on the finite list of captures the transport has delivered so far,
  each with its elapsed time.
\<close>

fun monitor_run ::
  "globals \<Rightarrow> resolver \<Rightarrow> bool \<Rightarrow> string option \<Rightarrow> monitor_state \<Rightarrow> (8 word list \<times> nat) list
     \<Rightarrow> failure + event list" where
  "monitor_run g r bsdl sensitivity st [] = Inr []"
| "monitor_run g r bsdl sensitivity st (c # cs) =
     (case monitor_iteration g r bsdl sensitivity st (fst c) (snd c) of
        Inl e \<Rightarrow> Inl e
      | Inr res \<Rightarrow>
          (case monitor_run g r bsdl sensitivity (snd res) cs of
             Inl e \<Rightarrow> Inl e
           | Inr out \<Rightarrow> Inr (fst res @ out)))"

section \<open>xilinx\_boundaryscan\<close>

text \<open>
  Lines 139--151: the pin file is parsed if one is named, the three per-bit tables are
  set to \<^verbatim>\<open>NULL\<close>, the layout file is parsed if one is named. A \<^verbatim>\<open>NULL\<close> file name is
  \<open>None\<close>.
\<close>

definition load_tables ::
  "fopen_result option \<Rightarrow> fopen_result option \<Rightarrow> char list \<Rightarrow> globals
     \<Rightarrow> failure + globals \<times> event list" where
  "load_tables xdc bsdl line0 g =
     (case (case xdc of
              None \<Rightarrow> Inr (g, [WarnNoXDC])
            | Some x \<Rightarrow> (case parse_xdc x line0 g of Inl e \<Rightarrow> Inl e | Inr g' \<Rightarrow> Inr (g', [])))
      of Inl e \<Rightarrow> Inl e
       | Inr go \<Rightarrow>
           (let g1 = (fst go)\<lparr>
                  boundary_bit_type :=
                    (\<lambda>i. if i < MAX_BOUNDARY_BITS then None else boundary_bit_type (fst go) i),
                  boundary_bit_fullname :=
                    (\<lambda>i. if i < MAX_BOUNDARY_BITS then None else boundary_bit_fullname (fst go) i),
                  boundary_bit_pin :=
                    (\<lambda>i. if i < MAX_BOUNDARY_BITS then None else boundary_bit_pin (fst go) i) \<rparr>
            in case bsdl of
                 None \<Rightarrow> Inr (g1, snd go @ [WarnNoBSDL])
               | Some b \<Rightarrow> parse_bsdl b (g1, snd go)))"

text \<open>
  The whole function, on the captures delivered so far: \<open>g\<close> is the state of the
  globals at the call, \<open>line0\<close>, \<open>r0\<close> and \<open>last0\<close> are what the stack holds where
  \<^verbatim>\<open>line\<close>, the three \<^verbatim>\<open>bbit_\<close> arrays and \<^verbatim>\<open>last_rdata\<close> are allocated. The result is
  everything printed.
\<close>

definition xilinx_boundaryscan ::
  "fopen_result option \<Rightarrow> fopen_result option \<Rightarrow> string option \<Rightarrow> globals \<Rightarrow> char list
     \<Rightarrow> resolver \<Rightarrow> 8 word list \<Rightarrow> (8 word list \<times> nat) list \<Rightarrow> failure + event list" where
  "xilinx_boundaryscan xdc bsdl sensitivity g line0 r0 last0 captures =
     (case load_tables xdc bsdl line0 g of
        Inl e \<Rightarrow> Inl e
      | Inr go \<Rightarrow>
          (case resolver_loop (fst go) sensitivity 0 (r0, snd go) of
             Inl e \<Rightarrow> Inl e
           | Inr ro \<Rightarrow>
               (case monitor_run (fst go) (fst ro) (bsdl \<noteq> None) sensitivity
                       \<lparr> last_rdata = last0, first_time = True \<rparr> captures of
                  Inl e \<Rightarrow> Inl e
                | Inr out \<Rightarrow> Inr (snd ro @ out))))"

section \<open>Observations\<close>

text \<open>
  The entry of the resolver table for bit \<open>i\<close> after a run of the resolver: the signal,
  the ignore flag and the show flag.
\<close>

definition resolved :: "failure + resolver \<times> event list \<Rightarrow> nat \<Rightarrow> failure + string option \<times> bool \<times> bool" where
  "resolved res i =
     (case res of
        Inl e \<Rightarrow> Inl e
      | Inr a \<Rightarrow> Inr (bbit_names (fst a) i, bbit_ignore (fst a) i, bbit_show (fst a) i))"

text \<open>The bit indices of the per-bit report lines among what was printed, in order.\<close>

fun report_index :: "event \<Rightarrow> nat list" where
  "report_index (BitReport i fullname pin signal v) = [i]"
| "report_index e = []"

definition reported_bits :: "event list \<Rightarrow> nat list" where
  "reported_bits out = concat (map report_index out)"

text \<open>
  The display predicate in the words of the spec: the show flag is set, and it is the
  first iteration with no sensitivity string or the ignore flag is clear, and it is the
  first iteration or bit \<open>i\<close> of the current capture differs from bit \<open>i\<close> of the previous
  one.
\<close>

definition display :: "resolver \<Rightarrow> string option \<Rightarrow> monitor_state \<Rightarrow> 8 word list \<Rightarrow> nat \<Rightarrow> bool" where
  "display r sensitivity st rdata i =
     (bbit_show r i
      \<and> ((first_time st \<and> sensitivity = None) \<or> \<not> bbit_ignore r i)
      \<and> (first_time st
           \<or> bit (rdata ! (i div 8)) (i mod 8) \<noteq> bit (last_rdata st ! (i div 8)) (i mod 8)))"

text \<open>The lines that the loop of \<^verbatim>\<open>parse_bsdl\<close> hands to \<^verbatim>\<open>sscanf\<close>, in file order.\<close>

function file_lines :: "string \<Rightarrow> string list" where
  "file_lines f =
     (if takeWhile (\<lambda>c. c \<noteq> NUL) (fgets_chunk 1023 f) = [] then []
      else takeWhile (\<lambda>c. c \<noteq> NUL) (fgets_chunk 1023 f)
           # file_lines (drop (length (fgets_chunk 1023 f)) f))"
  by pat_completeness auto
termination
proof (relation "measure length")
  show "wf (measure length)"
    by simp
next
  fix f :: string
  assume read: "takeWhile (\<lambda>c. c \<noteq> NUL) (fgets_chunk 1023 f) \<noteq> []"
  have bound: "length (fgets_chunk n h) \<le> length h" for n h
    by (induction n h rule: fgets_chunk.induct) auto
  from read have "fgets_chunk 1023 f \<noteq> []"
    by auto
  with bound [of 1023 f]
  show "(drop (length (fgets_chunk 1023 f)) f, f) \<in> measure length"
    by (cases "fgets_chunk 1023 f") auto
qed

text \<open>
  The identifiers that the header \<^verbatim>\<open>sscanf\<close> stores in \<^verbatim>\<open>part_name\<close>, line by line, and
  the header statements that match in full (return value 2).
\<close>

definition stored_names :: "string list \<Rightarrow> string list" where
  "stored_names ls =
     concat (map (\<lambda>l. case sscanf_header l of
                         Inr (OneItem name) \<Rightarrow> [name]
                       | Inr (TwoItems name n) \<Rightarrow> [name]
                       | _ \<Rightarrow> []) ls)"

definition headers :: "string list \<Rightarrow> (string \<times> int) list" where
  "headers ls =
     concat (map (\<lambda>l. case sscanf_header l of
                         Inr (TwoItems name n) \<Rightarrow> [(name, n)]
                       | _ \<Rightarrow> []) ls)"

text \<open>The layout header after a parse, with what the parse printed.\<close>

definition layout_header :: "failure + globals \<times> event list \<Rightarrow> failure + string \<times> int \<times> event list" where
  "layout_header res =
     (case res of
        Inl e \<Rightarrow> Inl e
      | Inr go \<Rightarrow> Inr (part_name (fst go), boundary_bit_count (fst go), snd go))"

text \<open>
  The mappings that the lines of a pin file yield, in file order: the loop of
  \<^verbatim>\<open>parse_xdc\<close> without the two tables.
\<close>

function xdc_scan :: "string \<Rightarrow> char list \<Rightarrow> failure + (string \<times> string) list" where
  "xdc_scan f line =
     (if fgets_chunk 1023 f = [] then Inr []
      else if hd (fgets_chunk 1023 f) = NUL then Inr []
      else (case xdc_mapping (fgets_into line (fgets_chunk 1023 f)) of
              Inl e \<Rightarrow> Inl e
            | Inr lm \<Rightarrow>
                (case xdc_scan (drop (length (fgets_chunk 1023 f)) f) (fst lm) of
                   Inl e \<Rightarrow> Inl e
                 | Inr ms \<Rightarrow> Inr ((case snd lm of None \<Rightarrow> [] | Some m \<Rightarrow> [m]) @ ms))))"
  by pat_completeness auto
termination
proof (relation "measure (\<lambda>(f, line). length f)")
  show "wf (measure (\<lambda>(f, line). length f))"
    by simp
next
  fix f :: string and line :: "char list" and lm :: "char list \<times> (string \<times> string) option"
  assume read: "fgets_chunk 1023 f \<noteq> []"
  have bound: "length (fgets_chunk n h) \<le> length h" for n h
    by (induction n h rule: fgets_chunk.induct) auto
  from read bound [of 1023 f]
  show "((drop (length (fgets_chunk 1023 f)) f, fst lm), (f, line))
      \<in> measure (\<lambda>(f, line). length f)"
    by (cases "fgets_chunk 1023 f") auto
qed

section \<open>Example inputs\<close>

text \<open>A resolver table before the resolver has written to it.\<close>

definition resolver0 :: resolver where
  "resolver0 = \<lparr> bbit_names = (\<lambda>_. None), bbit_ignore = (\<lambda>_. False), bbit_show = (\<lambda>_. False) \<rparr>"

text \<open>Two mappings for pin A3, and one input bit on that pin.\<close>

definition dup_tables :: globals where
  "dup_tables = globals0\<lparr>
     pin_names := [0 \<mapsto> ''A3'', 1 \<mapsto> ''A3''],
     signal_names := [0 \<mapsto> ''SIG1'', 1 \<mapsto> ''SIG2''],
     pin_count := 2,
     boundary_bit_type := [0 \<mapsto> ''input''],
     boundary_bit_fullname := [0 \<mapsto> ''IO_A3''],
     boundary_bit_pin := [0 \<mapsto> ''A3''],
     boundary_bit_count := 1 \<rparr>"

text \<open>A resolver table for \<open>dup_tables\<close>: bit 0 is \<open>SIG2\<close>, shown and not ignored.\<close>

definition dup_resolver :: resolver where
  "dup_resolver = resolver0\<lparr> bbit_names := [0 \<mapsto> ''SIG2''], bbit_show := (\<lambda>i. i = 0) \<rparr>"

text \<open>Three input bits, resolved to \<open>sys_clk\<close>, \<open>DATA0\<close> and \<open>clk\<close>.\<close>

definition clk_tables :: globals where
  "clk_tables = globals0\<lparr>
     pin_names := [0 \<mapsto> ''P1'', 1 \<mapsto> ''P2'', 2 \<mapsto> ''P3''],
     signal_names := [0 \<mapsto> ''sys_clk'', 1 \<mapsto> ''DATA0'', 2 \<mapsto> ''clk''],
     pin_count := 3,
     boundary_bit_type := [0 \<mapsto> ''input'', 1 \<mapsto> ''input'', 2 \<mapsto> ''input''],
     boundary_bit_fullname := [0 \<mapsto> ''IO_P1'', 1 \<mapsto> ''IO_P2'', 2 \<mapsto> ''IO_P3''],
     boundary_bit_pin := [0 \<mapsto> ''P1'', 1 \<mapsto> ''P2'', 2 \<mapsto> ''P3''],
     boundary_bit_count := 3 \<rparr>"

text \<open>One input bit, resolved to \<open>CLK_IN\<close>.\<close>

definition clk_in_tables :: globals where
  "clk_in_tables = globals0\<lparr>
     pin_names := [0 \<mapsto> ''P4''],
     signal_names := [0 \<mapsto> ''CLK_IN''],
     pin_count := 1,
     boundary_bit_type := [0 \<mapsto> ''input''],
     boundary_bit_fullname := [0 \<mapsto> ''IO_P4''],
     boundary_bit_pin := [0 \<mapsto> ''P4''],
     boundary_bit_count := 1 \<rparr>"

text \<open>
  A layout that declares two bits and defines bit 0 only: as tables, and as the text of a
  layout file.
\<close>

definition gap_tables :: globals where
  "gap_tables = globals0\<lparr>
     boundary_bit_type := [0 \<mapsto> ''input''],
     boundary_bit_fullname := [0 \<mapsto> ''IO_A3''],
     boundary_bit_pin := [0 \<mapsto> ''A3''],
     boundary_bit_count := 2 \<rparr>"

definition gap_bsdl :: string where
  "gap_bsdl = ''attribute BOUNDARY_LENGTH of XC7 : entity is 2;'' @ [CHR 0x0A]
     @ [CHR 0x09, CHR 0x22] @ ''   0 (BC_2, IO_A3, input, X),'' @ [CHR 0x22] @ '' &'' @ [CHR 0x0A]"

text \<open>A capture of 1024 bytes with every bit set.\<close>

definition idle_capture :: "8 word list" where
  "idle_capture = replicate 1024 0xFF"

text \<open>
  A matching header statement, then a line that matches the header pattern as far as the
  identifier only; and two matching header statements.
\<close>

definition clobbered_bsdl :: string where
  "clobbered_bsdl = ''attribute BOUNDARY_LENGTH of A : entity is 5;'' @ [CHR 0x0A]
     @ ''attribute BOUNDARY_LENGTH of B : entity is x;'' @ [CHR 0x0A]"

definition repeated_bsdl :: string where
  "repeated_bsdl = ''attribute BOUNDARY_LENGTH of A : entity is 5;'' @ [CHR 0x0A]
     @ ''attribute BOUNDARY_LENGTH of B : entity is 7;'' @ [CHR 0x0A]"

text \<open>Bit records with index 8192 and with index 3, and a header that declares 9000 bits.\<close>

definition past_end_line :: string where
  "past_end_line = [CHR 0x09, CHR 0x22] @ '' 8192 (BC_2, IO_A3, input, X),'' @ [CHR 0x22]
     @ '' &'' @ [CHR 0x0A]"

definition bit3_line :: string where
  "bit3_line = [CHR 0x09, CHR 0x22] @ ''   3 (BC_2, U1_DATA_PIN_A3, input, X),'' @ [CHR 0x22]
     @ '' &'' @ [CHR 0x0A]"

definition oversize_header :: string where
  "oversize_header = ''attribute BOUNDARY_LENGTH of XC7 : entity is 9000;'' @ [CHR 0x0A]"

text \<open>A line of a pin file that maps pin A3 to the port SIG1.\<close>

definition pin_line :: string where
  "pin_line = ''set_property PACKAGE_PIN A3 [get_ports {SIG1}]'' @ [CHR 0x0A]"

text \<open>Some content of the stack where \<^verbatim>\<open>line\<close> is allocated.\<close>

definition stack_bytes :: "char list" where
  "stack_bytes = replicate 1024 (CHR ''x'')"

text \<open>
  The equations of the loops are unfolded by hand, one pass at a time.
\<close>

declare signal_loop.simps [simp del] resolver_loop.simps [simp del] bit_loop.simps [simp del]
  parse_bsdl_loop.simps [simp del] parse_xdc_loop.simps [simp del]
  pin_name_loop.simps [simp del] signal_name_loop.simps [simp del]
  skip_braces.simps [simp del] trim_braces.simps [simp del] file_lines.simps [simp del]
  xdc_scan.simps [simp del]

section \<open>Properties of the bit resolver\<close>

lemma strcmp_eq_Inr:
  "strcmp_eq a b = Inr eq \<longleftrightarrow> (\<exists>x y. a = Some x \<and> b = Some y \<and> eq = (x = y))"
  by (auto simp: strcmp_eq_def split: option.splits)

lemma signal_loop_result:
  "signal_loop g i j s = Inr s' \<Longrightarrow>
   s' = (case filter (\<lambda>m. fst m = boundary_bit_pin g i)
                (map (\<lambda>k. (pin_names g k, signal_names g k)) [j..<nat (pin_count g)]) of
           [] \<Rightarrow> s
         | m # ms \<Rightarrow> snd (last (m # ms)))"
proof (induction g i j s rule: signal_loop.induct)
  case (1 g i j s)
  show ?case
  proof (cases "int j < pin_count g")
    case False
    with "1.prems" show ?thesis by (simp add: signal_loop.simps)
  next
    case True
    then have upt: "[j..<nat (pin_count g)] = j # [Suc j..<nat (pin_count g)]"
      by (simp add: upt_conv_Cons)
    from True "1.prems" have inb: "\<not> (MAX_PINS \<le> j \<or> MAX_BOUNDARY_BITS \<le> i)"
      by (subst (asm) signal_loop.simps) (auto split: if_splits)
    from True inb "1.prems" obtain eq where
      eq: "strcmp_eq (pin_names g j) (boundary_bit_pin g i) = Inr eq"
      and rest: "signal_loop g i (Suc j) (if eq then signal_names g j else s) = Inr s'"
      by (subst (asm) signal_loop.simps) (auto split: sum.splits)
    from eq have iff: "eq = (pin_names g j = boundary_bit_pin g i)"
      by (auto simp: strcmp_eq_Inr)
    from "1.IH" [OF True inb eq rest] show ?thesis
      unfolding upt by (simp add: iff split: list.splits)
  qed
qed

lemma resolve_bit_Inr:
  assumes ok: "resolve_bit g sensitivity i acc = Inr acc'"
  shows "\<exists>sig. signal_loop g i 0 (Some ''<unknown>'') = Inr (Some sig)
     \<and> i < MAX_BOUNDARY_BITS
     \<and> boundary_bit_type g i \<noteq> None
     \<and> bbit_names (fst acc') = (bbit_names (fst acc))(i := Some sig)
     \<and> bbit_ignore (fst acc') = (bbit_ignore (fst acc))
          (i := (case sensitivity of None \<Rightarrow> sig = ''CLK_IN''
                 | Some sens \<Rightarrow> strcasestr sens sig = None))
     \<and> bbit_show (fst acc') = (bbit_show (fst acc))(i := (boundary_bit_type g i = Some ''input''))"
proof -
  from ok obtain s where sl: "signal_loop g i 0 (Some ''<unknown>'') = Inr s"
    by (cases "signal_loop g i 0 (Some ''<unknown>'')") (simp_all add: resolve_bit_def)
  from ok sl have inb: "i < MAX_BOUNDARY_BITS"
    by (cases "MAX_BOUNDARY_BITS \<le> i") (simp_all add: resolve_bit_def)
  from ok sl inb obtain sig where s: "s = Some sig"
    by (cases s) (simp_all add: resolve_bit_def strcmp_eq_def)
  from ok sl inb s obtain t where t: "boundary_bit_type g i = Some t"
    by (cases "boundary_bit_type g i"; cases sensitivity)
       (simp_all add: resolve_bit_def strcmp_eq_def split: if_splits)
  from ok sl inb s t
  have "fst acc' = (fst acc)\<lparr> bbit_names := (bbit_names (fst acc))(i := Some sig),
          bbit_ignore := (bbit_ignore (fst acc))
            (i := (case sensitivity of None \<Rightarrow> sig = ''CLK_IN''
                   | Some sens \<Rightarrow> strcasestr sens sig = None)),
          bbit_show := (bbit_show (fst acc))(i := (t = ''input'')) \<rparr>"
    by (cases sensitivity)
       (auto simp add: resolve_bit_def strcmp_eq_def eq_commute [of "''CLK_IN''"] split: if_splits)
  with sl inb s t show ?thesis
    by simp
qed

lemma resolver_loop_frame:
  "resolver_loop g sensitivity k acc = Inr acc' \<Longrightarrow> j < k \<Longrightarrow>
   bbit_names (fst acc') j = bbit_names (fst acc) j
   \<and> bbit_ignore (fst acc') j = bbit_ignore (fst acc) j
   \<and> bbit_show (fst acc') j = bbit_show (fst acc) j"
proof (induction g sensitivity k acc rule: resolver_loop.induct)
  case (1 g sensitivity i acc)
  show ?case
  proof (cases "int i < boundary_bit_count g")
    case False
    with "1.prems" show ?thesis by (simp add: resolver_loop.simps)
  next
    case True
    with "1.prems" obtain acc1 where
      step: "resolve_bit g sensitivity i acc = Inr acc1"
      and rest: "resolver_loop g sensitivity (Suc i) acc1 = Inr acc'"
      by (subst (asm) resolver_loop.simps) (auto split: sum.splits)
    from "1.IH" [OF True step rest] "1.prems"(2)
    have "bbit_names (fst acc') j = bbit_names (fst acc1) j
      \<and> bbit_ignore (fst acc') j = bbit_ignore (fst acc1) j
      \<and> bbit_show (fst acc') j = bbit_show (fst acc1) j"
      by simp
    moreover from resolve_bit_Inr [OF step] "1.prems"(2)
    have "bbit_names (fst acc1) j = bbit_names (fst acc) j
      \<and> bbit_ignore (fst acc1) j = bbit_ignore (fst acc) j
      \<and> bbit_show (fst acc1) j = bbit_show (fst acc) j"
      by auto
    ultimately show ?thesis by simp
  qed
qed

lemma resolver_loop_entry:
  "resolver_loop g sensitivity k acc = Inr acc' \<Longrightarrow> k \<le> i \<Longrightarrow> int i < boundary_bit_count g \<Longrightarrow>
   \<exists>sig. signal_loop g i 0 (Some ''<unknown>'') = Inr (Some sig)
     \<and> i < MAX_BOUNDARY_BITS
     \<and> boundary_bit_type g i \<noteq> None
     \<and> bbit_names (fst acc') i = Some sig
     \<and> bbit_ignore (fst acc') i =
          (case sensitivity of None \<Rightarrow> sig = ''CLK_IN''
           | Some sens \<Rightarrow> strcasestr sens sig = None)
     \<and> bbit_show (fst acc') i = (boundary_bit_type g i = Some ''input'')"
proof (induction g sensitivity k acc rule: resolver_loop.induct)
  case (1 g sensitivity k acc)
  from "1.prems" have True: "int k < boundary_bit_count g"
    by simp
  with "1.prems" obtain acc1 where
    step: "resolve_bit g sensitivity k acc = Inr acc1"
    and rest: "resolver_loop g sensitivity (Suc k) acc1 = Inr acc'"
    by (subst (asm) resolver_loop.simps) (auto split: sum.splits)
  show ?case
  proof (cases "k = i")
    case True
    from resolver_loop_frame [OF rest, of i] True
    have "bbit_names (fst acc') i = bbit_names (fst acc1) i
      \<and> bbit_ignore (fst acc') i = bbit_ignore (fst acc1) i
      \<and> bbit_show (fst acc') i = bbit_show (fst acc1) i"
      by simp
    with resolve_bit_Inr [OF step] True show ?thesis
      by auto
  next
    case False
    with "1.prems" have "Suc k \<le> i" by simp
    from "1.IH" [OF True step rest this "1.prems"(3)] show ?thesis .
  qed
qed

lemma strcasestr_sublist:
  "strcasestr hay needle \<noteq> None \<longleftrightarrow> sublist (map tolower_c needle) (map tolower_c hay)"
proof (induction hay)
  case Nil
  then show ?case by simp
next
  case (Cons h hs)
  have "match_ci needle (h # hs) \<longleftrightarrow> prefix (map tolower_c needle) (map tolower_c (h # hs))"
  proof
    assume "match_ci needle (h # hs)"
    then have "map tolower_c (take (length needle) (h # hs)) = map tolower_c needle"
      by (simp only: match_ci_def)
    then have "map tolower_c needle = take (length needle) (map tolower_c (h # hs))"
      by (simp only: take_map)
    then show "prefix (map tolower_c needle) (map tolower_c (h # hs))"
      by (metis take_is_prefix)
  next
    assume "prefix (map tolower_c needle) (map tolower_c (h # hs))"
    then obtain zs where zs: "map tolower_c (h # hs) = map tolower_c needle @ zs"
      by (auto simp: prefix_def)
    then have "length needle \<le> length (h # hs)"
      by (metis length_append length_map le_add1)
    moreover from zs have "take (length needle) (map tolower_c (h # hs)) = map tolower_c needle"
      by (metis append_eq_conv_conj length_map)
    ultimately show "match_ci needle (h # hs)"
      by (simp only: match_ci_def take_map simp_thms)
  qed
  with Cons.IH show ?case
    by (simp add: sublist_Cons_right)
qed

text \<open>
  Claim C2. For every boundary bit \<open>i\<close> below \<open>boundary_bit_count\<close>, the resolved
  signal is the signal of the last record, in table order, whose pin name equals the pin
  of the bit, and \<open><unknown>\<close> if no record has that pin name.
\<close>
theorem last_match_wins:
  assumes "resolver_loop g sensitivity 0 acc = Inr acc'" and "int i < boundary_bit_count g"
  shows "bbit_names (fst acc') i =
     (case filter (\<lambda>m. fst m = boundary_bit_pin g i)
             (map (\<lambda>j. (pin_names g j, signal_names g j)) [0..<nat (pin_count g)]) of
        [] \<Rightarrow> Some ''<unknown>''
      | m # ms \<Rightarrow> snd (last (m # ms)))"
proof -
  from resolver_loop_entry [OF assms(1) _ assms(2)] obtain sig where
    "signal_loop g i 0 (Some ''<unknown>'') = Inr (Some sig)" "bbit_names (fst acc') i = Some sig"
    by auto
  with signal_loop_result [of g i 0 "Some ''<unknown>''" "Some sig"] show ?thesis
    by simp
qed

lemma char_of_odd:
  "char_of (n :: nat) = Char (odd n) (odd (n div 2)) (odd (n div 4)) (odd (n div 8))
     (odd (n div 16)) (odd (n div 32)) (odd (n div 64)) (odd (n div 128))"
  by (simp add: char_of_def bit_iff_odd)

lemmas run_defs = resolver_loop.simps resolve_bit_def signal_loop.simps strcmp_eq_def
  MAX_PINS_def MAX_BOUNDARY_BITS_def globals0_def resolver0_def match_ci_def tolower_c_def
  char_of_odd

theorem last_match_wins_witness:
  "\<exists>acc'. resolver_loop dup_tables None 0 (resolver0, []) = Inr acc'
     \<and> int 0 < boundary_bit_count dup_tables
     \<and> bbit_names (fst acc') 0 = Some ''SIG2''"
proof -
  obtain acc' where run: "resolver_loop dup_tables None 0 (resolver0, []) = Inr acc'"
    by (simp add: dup_tables_def run_defs)
  have "int 0 < boundary_bit_count dup_tables"
    by (simp add: dup_tables_def globals0_def)
  from last_match_wins [OF run this] run this show ?thesis
    by (simp add: dup_tables_def globals0_def eval_nat_numeral)
qed

lemma resolved_Inr:
  "resolved res i = Inr (s, ign, sh) \<longleftrightarrow>
   (\<exists>a. res = Inr a \<and> bbit_names (fst a) i = s \<and> bbit_ignore (fst a) i = ign \<and> bbit_show (fst a) i = sh)"
  by (cases res) (auto simp: resolved_def)

lemma resolver_loop_ignore:
  assumes "resolver_loop g (Some sens) 0 acc = Inr acc'" and "int i < boundary_bit_count g"
  shows "\<exists>sig. bbit_names (fst acc') i = Some sig
     \<and> bbit_ignore (fst acc') i = (\<not> sublist (map tolower_c sig) (map tolower_c sens))"
proof -
  from resolver_loop_entry [OF assms(1) _ assms(2)] obtain sig where
    "bbit_names (fst acc') i = Some sig"
    "bbit_ignore (fst acc') i = (strcasestr sens sig = None)"
    by auto
  with strcasestr_sublist [of sens sig] show ?thesis
    by auto
qed

text \<open>
  Claim C4. When a sensitivity string is supplied, the ignore flag of every bit is false
  if the resolved signal occurs in the sensitivity string as a case-insensitive substring
  and true otherwise; the comparison with \<open>CLK_IN\<close> plays no part.
\<close>
theorem sensitivity_replaces_default:
  assumes "resolver_loop g (Some sens) 0 acc = Inr acc'" and "int i < boundary_bit_count g"
  shows "\<exists>sig. bbit_names (fst acc') i = Some sig
     \<and> bbit_ignore (fst acc') i = (\<not> sublist (map tolower_c sig) (map tolower_c sens))"
  using assms by (rule resolver_loop_ignore)

lemma clk_in_run:
  "resolved (resolver_loop clk_in_tables (Some ''clk_in'') 0 (resolver0, [])) 0
     = Inr (Some ''CLK_IN'', False, True)"
  by (simp add: resolved_def clk_in_tables_def run_defs)

theorem sensitivity_replaces_default_witness:
  "\<exists>acc'. resolver_loop clk_in_tables (Some ''clk_in'') 0 (resolver0, []) = Inr acc'
     \<and> int 0 < boundary_bit_count clk_in_tables
     \<and> bbit_names (fst acc') 0 = Some ''CLK_IN''
     \<and> \<not> bbit_ignore (fst acc') 0"
proof -
  from clk_in_run obtain acc' where
    run: "resolver_loop clk_in_tables (Some ''clk_in'') 0 (resolver0, []) = Inr acc'"
    and sig: "bbit_names (fst acc') 0 = Some ''CLK_IN''"
    by (auto simp: resolved_Inr)
  have len: "int 0 < boundary_bit_count clk_in_tables"
    by (simp add: clk_in_tables_def globals0_def)
  have "strcasestr ''clk_in'' ''CLK_IN'' \<noteq> None"
    by (simp add: match_ci_def tolower_c_def char_of_odd)
  then have "sublist (map tolower_c ''CLK_IN'') (map tolower_c ''clk_in'')"
    by (simp only: strcasestr_sublist)
  with sensitivity_replaces_default [OF run len] sig
  have "\<not> bbit_ignore (fst acc') 0"
    by simp
  with run sig len show ?thesis
    by auto
qed

text \<open>
  Claim C3, as the spec states it, fails: with the sensitivity string \<open>CLK\<close> a bit
  resolved to \<open>sys_clk\<close> is ignored, because the signal name is looked for inside the
  sensitivity string and \<open>sys_clk\<close> does not occur in \<open>CLK\<close>.
\<close>
theorem sys_clk_ignored_counterexample:
  "resolved (resolver_loop clk_tables (Some ''CLK'') 0 (resolver0, [])) 0
     = Inr (Some ''sys_clk'', True, True)"
  by (simp add: resolved_def clk_tables_def run_defs)

text \<open>
  Claim C3, amended. With the sensitivity string \<open>CLK\<close>, a bit resolved to
  \<open>sys_clk\<close> and a bit resolved to \<open>DATA0\<close> both get the ignore flag set; a bit
  resolved to \<open>clk\<close> gets it cleared.
\<close>

theorem sensitivity_CLK:
  assumes "resolver_loop g (Some ''CLK'') 0 acc = Inr acc'" and "int i < boundary_bit_count g"
  shows "(bbit_names (fst acc') i = Some ''sys_clk'' \<longrightarrow> bbit_ignore (fst acc') i)
     \<and> (bbit_names (fst acc') i = Some ''DATA0'' \<longrightarrow> bbit_ignore (fst acc') i)
     \<and> (bbit_names (fst acc') i = Some ''clk'' \<longrightarrow> \<not> bbit_ignore (fst acc') i)"
proof -
  from resolver_loop_entry [OF assms(1) _ assms(2)] obtain sig where
    sig: "bbit_names (fst acc') i = Some sig"
    and ign: "bbit_ignore (fst acc') i = (strcasestr ''CLK'' sig = None)"
    by auto
  have no1: "(strcasestr ''CLK'' ''sys_clk'' = None) = True"
    and no2: "(strcasestr ''CLK'' ''DATA0'' = None) = True"
    and yes: "(strcasestr ''CLK'' ''clk'' = None) = False"
    by (simp_all add: match_ci_def tolower_c_def char_of_odd)
  show ?thesis
  proof (intro conjI impI)
    assume "bbit_names (fst acc') i = Some ''sys_clk''"
    with sig have "sig = ''sys_clk''" by simp
    with ign show "bbit_ignore (fst acc') i" by (simp only: no1)
  next
    assume "bbit_names (fst acc') i = Some ''DATA0''"
    with sig have "sig = ''DATA0''" by simp
    with ign show "bbit_ignore (fst acc') i" by (simp only: no2)
  next
    assume "bbit_names (fst acc') i = Some ''clk''"
    with sig have "sig = ''clk''" by simp
    with ign show "\<not> bbit_ignore (fst acc') i" by (simp only: yes simp_thms)
  qed
qed

lemma clk_run:
  "resolved (resolver_loop clk_tables (Some ''CLK'') 0 (resolver0, [])) 1 = Inr (Some ''DATA0'', True, True)"
  "resolved (resolver_loop clk_tables (Some ''CLK'') 0 (resolver0, [])) 2 = Inr (Some ''clk'', False, True)"
  by (simp_all add: resolved_def clk_tables_def run_defs)

theorem sensitivity_CLK_witness:
  "\<exists>acc'. resolver_loop clk_tables (Some ''CLK'') 0 (resolver0, []) = Inr acc'
     \<and> int 2 < boundary_bit_count clk_tables
     \<and> bbit_names (fst acc') 0 = Some ''sys_clk'' \<and> bbit_ignore (fst acc') 0
     \<and> bbit_names (fst acc') 1 = Some ''DATA0'' \<and> bbit_ignore (fst acc') 1
     \<and> bbit_names (fst acc') 2 = Some ''clk'' \<and> \<not> bbit_ignore (fst acc') 2"
proof -
  have "resolved (resolver_loop clk_tables (Some ''CLK'') 0 (resolver0, [])) 0
     = Inr (Some ''sys_clk'', True, True)"
    by (simp add: resolved_def clk_tables_def run_defs)
  with clk_run obtain acc' where
    run: "resolver_loop clk_tables (Some ''CLK'') 0 (resolver0, []) = Inr acc'"
    and sig: "bbit_names (fst acc') 0 = Some ''sys_clk''" "bbit_names (fst acc') 1 = Some ''DATA0''"
      "bbit_names (fst acc') 2 = Some ''clk''"
    by (auto simp: resolved_Inr)
  have len: "int 0 < boundary_bit_count clk_tables" "int 1 < boundary_bit_count clk_tables"
    "int 2 < boundary_bit_count clk_tables"
    by (simp_all add: clk_tables_def globals0_def)
  from sensitivity_CLK [OF run len(1)] sensitivity_CLK [OF run len(2)]
    sensitivity_CLK [OF run len(3)] sig run len
  show ?thesis
    by auto
qed

lemma signal_loop_no_oob:
  "pin_count g \<le> int MAX_PINS \<Longrightarrow> i < MAX_BOUNDARY_BITS \<Longrightarrow>
   signal_loop g i j s \<noteq> Inl OutOfBounds"
proof (induction g i j s rule: signal_loop.induct)
  case (1 g i j s)
  show ?case
  proof (cases "int j < pin_count g")
    case False
    then show ?thesis by (simp add: signal_loop.simps)
  next
    case True
    with "1.prems" have inb: "\<not> (MAX_PINS \<le> j \<or> MAX_BOUNDARY_BITS \<le> i)"
      by auto
    show ?thesis
    proof (cases "strcmp_eq (pin_names g j) (boundary_bit_pin g i)")
      case (Inl e)
      then have "e = NullDeref"
        by (auto simp: strcmp_eq_def split: option.splits)
      with True inb Inl show ?thesis
        by (subst signal_loop.simps) simp
    next
      case (Inr eq)
      from "1.IH" [OF True inb Inr "1.prems"] True inb Inr show ?thesis
        by (subst signal_loop.simps) simp
    qed
  qed
qed

lemma resolve_bit_no_oob:
  assumes "pin_count g \<le> int MAX_PINS" and "i < MAX_BOUNDARY_BITS"
  shows "resolve_bit g sensitivity i acc \<noteq> Inl OutOfBounds"
proof (cases "signal_loop g i 0 (Some ''<unknown>'')")
  case (Inl e)
  with signal_loop_no_oob [OF assms, of 0 "Some ''<unknown>''"] show ?thesis
    by (simp add: resolve_bit_def)
next
  case (Inr s)
  with assms(2) show ?thesis
    by (cases s; cases sensitivity; cases "boundary_bit_type g i")
       (simp_all add: resolve_bit_def strcmp_eq_def)
qed

lemma resolver_loop_no_oob:
  "boundary_bit_count g \<le> int MAX_BOUNDARY_BITS \<Longrightarrow> pin_count g \<le> int MAX_PINS \<Longrightarrow>
   resolver_loop g sensitivity k acc \<noteq> Inl OutOfBounds"
proof (induction g sensitivity k acc rule: resolver_loop.induct)
  case (1 g sensitivity i acc)
  show ?case
  proof (cases "int i < boundary_bit_count g")
    case False
    then show ?thesis by (simp add: resolver_loop.simps)
  next
    case True
    with "1.prems" have "i < MAX_BOUNDARY_BITS" by simp
    from resolve_bit_no_oob [OF "1.prems"(2) this, of sensitivity acc] "1.IH" [OF True _ "1.prems"] True
    show ?thesis
      by (subst resolver_loop.simps) (auto split: sum.splits)
  qed
qed

lemma resolver_loop_past_end:
  assumes "int MAX_BOUNDARY_BITS < boundary_bit_count g"
  shows "resolver_loop g sensitivity MAX_BOUNDARY_BITS acc = Inl OutOfBounds"
proof -
  have "signal_loop g MAX_BOUNDARY_BITS 0 (Some ''<unknown>'') = Inl OutOfBounds
      \<or> signal_loop g MAX_BOUNDARY_BITS 0 (Some ''<unknown>'') = Inr (Some ''<unknown>'')"
    by (subst signal_loop.simps, subst (2) signal_loop.simps) simp
  then have "resolve_bit g sensitivity MAX_BOUNDARY_BITS acc = Inl OutOfBounds"
    by (auto simp: resolve_bit_def)
  with assms show ?thesis
    by (subst resolver_loop.simps) simp
qed

lemma resolver_loop_fails:
  assumes "int MAX_BOUNDARY_BITS < boundary_bit_count g"
  shows "\<exists>e. resolver_loop g sensitivity 0 acc = Inl e"
proof (cases "resolver_loop g sensitivity 0 acc")
  case (Inl e)
  then show ?thesis by simp
next
  case (Inr acc')
  from resolver_loop_entry [OF Inr, of MAX_BOUNDARY_BITS] assms show ?thesis
    by simp
qed

lemma resolver_loop_error:
  "resolver_loop g sensitivity k acc = Inl e \<Longrightarrow> e = NullDeref \<or> e = OutOfBounds"
proof (induction g sensitivity k acc rule: resolver_loop.induct)
  case (1 g sensitivity i acc)
  have sl: "signal_loop g i j s = Inl e \<Longrightarrow> e = NullDeref \<or> e = OutOfBounds" for j s e
  proof (induction g i j s rule: signal_loop.induct)
    case (1 g i j s)
    from "1.prems" have lt: "int j < pin_count g"
      by (subst (asm) signal_loop.simps) (simp split: if_splits)
    show ?case
    proof (cases "MAX_PINS \<le> j \<or> MAX_BOUNDARY_BITS \<le> i")
      case True
      with lt "1.prems" show ?thesis
        by (subst (asm) signal_loop.simps) simp
    next
      case False
      show ?thesis
      proof (cases "strcmp_eq (pin_names g j) (boundary_bit_pin g i)")
        case (Inl e')
        then have "e' = NullDeref"
          by (auto simp: strcmp_eq_def split: option.splits)
        with lt False Inl "1.prems" show ?thesis
          by (subst (asm) signal_loop.simps) simp
      next
        case (Inr eq)
        with lt False "1.prems"
        have "signal_loop g i (Suc j) (if eq then signal_names g j else s) = Inl e"
          by (subst (asm) signal_loop.simps) simp
        from "1.IH" [OF lt False Inr this] show ?thesis .
      qed
    qed
  qed
  have rb: "resolve_bit g sensitivity i acc = Inl e \<Longrightarrow> e = NullDeref \<or> e = OutOfBounds" for e
  proof (cases "signal_loop g i 0 (Some ''<unknown>'')")
    case (Inl e')
    assume "resolve_bit g sensitivity i acc = Inl e"
    with Inl sl [OF Inl] show ?thesis
      by (simp add: resolve_bit_def)
  next
    case (Inr s)
    assume "resolve_bit g sensitivity i acc = Inl e"
    with Inr show ?thesis
      by (cases s; cases sensitivity; cases "boundary_bit_type g i")
         (auto simp add: resolve_bit_def strcmp_eq_def split: if_splits)
  qed
  from "1.prems" have lt: "int i < boundary_bit_count g"
    by (subst (asm) resolver_loop.simps) (simp split: if_splits)
  show ?case
  proof (cases "resolve_bit g sensitivity i acc")
    case (Inl e')
    with lt "1.prems" rb [OF Inl] show ?thesis
      by (subst (asm) resolver_loop.simps) simp
  next
    case (Inr acc1)
    with lt "1.prems" have "resolver_loop g sensitivity (Suc i) acc1 = Inl e"
      by (subst (asm) resolver_loop.simps) simp
    from "1.IH" [OF lt Inr this] show ?thesis .
  qed
qed

text \<open>
  Claim C5 says that the resolver builds an entry with a clear show flag for an index
  below \<open>boundary_bit_count\<close> whose record was never stored. The code hands the
  \<^verbatim>\<open>NULL\<close> it stored for such an index to \<^verbatim>\<open>strcmp\<close>: the resolver does not finish.
\<close>
theorem absent_entry_null_dereference:
  assumes "int i < boundary_bit_count g" and "boundary_bit_type g i = None"
    and "boundary_bit_count g \<le> int MAX_BOUNDARY_BITS" and "pin_count g \<le> int MAX_PINS"
  shows "resolver_loop g sensitivity 0 acc = Inl NullDeref"
proof (cases "resolver_loop g sensitivity 0 acc")
  case (Inl e)
  with resolver_loop_error [OF Inl] resolver_loop_no_oob [OF assms(3,4), of sensitivity 0 acc]
  show ?thesis by auto
next
  case (Inr acc')
  from resolver_loop_entry [OF Inr _ assms(1)] assms(2) show ?thesis
    by simp
qed

theorem absent_entry_null_dereference_witness:
  "int 1 < boundary_bit_count gap_tables \<and> boundary_bit_type gap_tables 1 = None
   \<and> boundary_bit_count gap_tables \<le> int MAX_BOUNDARY_BITS \<and> pin_count gap_tables \<le> int MAX_PINS
   \<and> resolver_loop gap_tables None 0 (resolver0, []) = Inl NullDeref"
proof -
  have h: "int 1 < boundary_bit_count gap_tables" "boundary_bit_type gap_tables 1 = None"
    "boundary_bit_count gap_tables \<le> int MAX_BOUNDARY_BITS" "pin_count gap_tables \<le> int MAX_PINS"
    by (simp_all add: gap_tables_def globals0_def MAX_BOUNDARY_BITS_def MAX_PINS_def)
  from absent_entry_null_dereference [OF h] h show ?thesis
    by simp
qed

section \<open>Properties of the scan monitor\<close>

lemma index_split: "drop_bit 3 (i :: nat) = i div 8" "(i :: nat) AND 7 = i mod 8"
proof -
  show "drop_bit 3 i = i div 8"
    by (simp add: drop_bit_eq_div)
  have "i AND mask 3 = i mod 2 ^ 3"
    by (simp only: take_bit_eq_mask [symmetric] take_bit_eq_mod)
  then show "i AND 7 = i mod 8"
    by (simp add: mask_eq_exp_minus_1)
qed

lemma value_of_bit: "value_of rdata i = of_bool (bit (rdata ! (i div 8)) (i mod 8))"
proof -
  have "drop_bit n k AND 1 = of_bool (bit k n)" for n and k :: int
    by (simp add: and_one_eq bit_iff_odd_drop_bit mod_2_eq_odd)
  then show ?thesis
    by (simp add: value_of_def index_split bit_uint_iff)
qed

lemma last_value_of_bit: "last_value_of prev i = of_bool (bit (prev ! (i div 8)) (i mod 8))"
proof -
  have low: "bit (sint w) n = bit w n" if "n < 8" for n and w :: "8 word"
    using that by (auto simp: bit_sint_iff dest: bit_imp_le_length)
  have "drop_bit n k AND 1 = of_bool (bit k n)" for n and k :: int
    by (simp add: and_one_eq bit_iff_odd_drop_bit mod_2_eq_odd)
  then show ?thesis
    by (simp add: last_value_of_def index_split low)
qed

lemma reported_bits_simps:
  "reported_bits [] = []"
  "reported_bits (xs @ ys) = reported_bits xs @ reported_bits ys"
  "reported_bits [SignalsChanged t] = []"
  "reported_bits [BitReport i f p s v] = [i]"
  by (simp_all add: reported_bits_def)

lemma bit_loop_reported:
  "bit_loop g r sensitivity st rdata time_delta k acc = Inr acc' \<Longrightarrow>
   reported_bits (snd acc')
     = reported_bits (snd acc)
       @ filter (display r sensitivity st rdata) [k..<nat (boundary_bit_count g)]"
proof (induction g r sensitivity st rdata time_delta k acc rule: bit_loop.induct)
  case (1 g r sensitivity st rdata time_delta i acc)
  show ?case
  proof (cases "int i < boundary_bit_count g")
    case False
    with "1.prems" show ?thesis
      by (simp add: bit_loop.simps)
  next
    case True
    then have upt: "[i..<nat (boundary_bit_count g)] = i # [Suc i..<nat (boundary_bit_count g)]"
      by (simp add: upt_conv_Cons)
    from True "1.prems" have inb: "\<not> (length rdata \<le> drop_bit 3 i
        \<or> length (last_rdata st) \<le> drop_bit 3 i \<or> MAX_BOUNDARY_BITS \<le> i)"
      by (subst (asm) bit_loop.simps) (auto split: if_splits)
    have disp: "display r sensitivity st rdata i \<longleftrightarrow>
        bbit_show r i \<and> (first_time st \<or> last_value_of (last_rdata st) i \<noteq> value_of rdata i)
        \<and> ((first_time st \<and> sensitivity = None) \<or> \<not> bbit_ignore r i)"
      by (auto simp: display_def value_of_bit last_value_of_bit)
    show ?thesis
    proof (cases "display r sensitivity st rdata i")
      case False
      with disp consider "\<not> bbit_show r i"
        | "bbit_show r i" "\<not> (first_time st \<or> last_value_of (last_rdata st) i \<noteq> value_of rdata i)"
        | "bbit_show r i" "first_time st \<or> last_value_of (last_rdata st) i \<noteq> value_of rdata i"
          "\<not> ((first_time st \<and> sensitivity = None) \<or> \<not> bbit_ignore r i)"
        by blast
      then show ?thesis
      proof cases
        case 1
        with True inb "1.prems"
        have "bit_loop g r sensitivity st rdata time_delta (Suc i) acc = Inr acc'"
          by (subst (asm) bit_loop.simps) simp
        from "1.IH"(4) [OF True inb 1 this] False show ?thesis
          unfolding upt by simp
      next
        case 2
        with True inb "1.prems"
        have "bit_loop g r sensitivity st rdata time_delta (Suc i) acc = Inr acc'"
          by (subst (asm) bit_loop.simps) simp
        from "1.IH"(3) [OF True inb 2 this] False show ?thesis
          unfolding upt by simp
      next
        case 3
        with True inb "1.prems"
        have "bit_loop g r sensitivity st rdata time_delta (Suc i) acc = Inr acc'"
          by (subst (asm) bit_loop.simps) simp
        from "1.IH"(2) [OF True inb 3 this] False show ?thesis
          unfolding upt by simp
      qed
    next
      case yes: True
      with disp have c1: "bbit_show r i"
        and c2: "first_time st \<or> last_value_of (last_rdata st) i \<noteq> value_of rdata i"
        and c3: "(first_time st \<and> sensitivity = None) \<or> \<not> bbit_ignore r i"
        by blast+
      from True inb c1 c2 c3 "1.prems" obtain fullname pin signal where
        f: "boundary_bit_fullname g i = Some fullname"
        and p: "boundary_bit_pin g i = Some pin"
        and s: "bbit_names r i = Some signal"
        and rest: "bit_loop g r sensitivity st rdata time_delta (Suc i)
            (Suc (fst acc),
             snd acc @ (if fst acc = 0 then [SignalsChanged time_delta] else [])
             @ [BitReport i fullname pin signal (value_of rdata i)]) = Inr acc'"
        by (subst (asm) bit_loop.simps) (auto split: option.splits)
      from "1.IH"(1) [OF True inb c1 c2 c3 f p s rest] yes show ?thesis
        unfolding upt by (simp add: reported_bits_simps)
    qed
  qed
qed

lemma bit_loop_step:
  assumes "int i < boundary_bit_count g"
    and "bit_loop g r sensitivity st rdata time_delta i acc = Inr acc'"
  shows "i < MAX_BOUNDARY_BITS \<and> i div 8 < length rdata \<and> i div 8 < length (last_rdata st)
     \<and> (\<exists>acc1. bit_loop g r sensitivity st rdata time_delta (Suc i) acc1 = Inr acc')"
  using assms
  by (subst (asm) bit_loop.simps)
     (auto simp: index_split simp del: split_paired_Ex split: if_splits option.splits)

lemma bit_loop_bounds:
  "bit_loop g r sensitivity st rdata time_delta k acc = Inr acc' \<Longrightarrow> k \<le> i \<Longrightarrow>
   int i < boundary_bit_count g \<Longrightarrow>
   i < MAX_BOUNDARY_BITS \<and> i div 8 < length rdata \<and> i div 8 < length (last_rdata st)"
proof (induction "i - k" arbitrary: k acc)
  case 0
  then have "k = i" by simp
  with bit_loop_step [OF "0.prems"(3), of r sensitivity st rdata time_delta acc acc'] "0.prems"(1)
  show ?case by simp
next
  case (Suc d)
  then have lt: "int k < boundary_bit_count g" and le: "Suc k \<le> i" and d: "d = i - Suc k"
    by simp_all
  from bit_loop_step [OF lt Suc.prems(1)] obtain acc1 where
    "bit_loop g r sensitivity st rdata time_delta (Suc k) acc1 = Inr acc'"
    by blast
  from Suc.hyps(1) [OF d this le Suc.prems(3)] show ?case .
qed

lemma monitor_iteration_Inr:
  assumes "monitor_iteration g r True sensitivity st rdata time_delta = Inr (out, st')"
  shows "\<exists>acc'. bit_loop g r sensitivity st rdata time_delta 0 (0, []) = Inr acc' \<and> out = snd acc'"
    and "1024 \<le> length rdata"
    and "st' = \<lparr> last_rdata = take 1024 rdata, first_time = False \<rparr>"
  using assms
  by (auto simp: monitor_iteration_def split: sum.splits if_splits)

lemma monitor_iteration_reported:
  assumes "monitor_iteration g r True sensitivity st rdata time_delta = Inr (out, st')"
  shows "reported_bits out
     = filter (display r sensitivity st rdata) [0..<nat (boundary_bit_count g)]"
proof -
  from monitor_iteration_Inr(1) [OF assms] obtain acc' where
    "bit_loop g r sensitivity st rdata time_delta 0 (0, []) = Inr acc'" "out = snd acc'"
    by blast
  with bit_loop_reported [of g r sensitivity st rdata time_delta 0 "(0, [])" acc']
  show ?thesis
    by (simp add: reported_bits_simps)
qed

text \<open>
  Claim C1. In every monitor iteration that takes the per-bit path, the report lines
  printed are those of the indices below \<open>boundary_bit_count\<close> at which the show flag is
  set, and it is the first iteration with no sensitivity string or the ignore flag is
  clear, and it is the first iteration or the bit differs from the previous capture; each
  once, in index order. So on the first iteration the captures are not compared at all,
  and an iteration that follows another one with an identical capture prints no report
  line.
\<close>
theorem display_rule:
  assumes "monitor_iteration g r True sensitivity st rdata time_delta = Inr (out, st')"
  shows "reported_bits out
       = filter (\<lambda>i. bbit_show r i
                   \<and> ((first_time st \<and> sensitivity = None) \<or> \<not> bbit_ignore r i)
                   \<and> (first_time st
                        \<or> bit (rdata ! (i div 8)) (i mod 8)
                           \<noteq> bit (last_rdata st ! (i div 8)) (i mod 8)))
           [0..<nat (boundary_bit_count g)]
     \<and> (first_time st \<longrightarrow>
          reported_bits out
            = filter (\<lambda>i. bbit_show r i \<and> (sensitivity = None \<or> \<not> bbit_ignore r i))
                [0..<nat (boundary_bit_count g)])
     \<and> (\<forall>rdata' time_delta' out' st''.
          monitor_iteration g r True sensitivity st' rdata' time_delta' = Inr (out', st'')
          \<longrightarrow> take 1024 rdata' = take 1024 rdata
          \<longrightarrow> reported_bits out' = [])"
proof (intro conjI allI impI)
  from monitor_iteration_reported [OF assms]
  show main: "reported_bits out
       = filter (\<lambda>i. bbit_show r i
                   \<and> ((first_time st \<and> sensitivity = None) \<or> \<not> bbit_ignore r i)
                   \<and> (first_time st
                        \<or> bit (rdata ! (i div 8)) (i mod 8)
                           \<noteq> bit (last_rdata st ! (i div 8)) (i mod 8)))
           [0..<nat (boundary_bit_count g)]"
    by (simp add: display_def [abs_def])
  assume "first_time st"
  with main show "reported_bits out
      = filter (\<lambda>i. bbit_show r i \<and> (sensitivity = None \<or> \<not> bbit_ignore r i))
          [0..<nat (boundary_bit_count g)]"
    by simp
next
  fix rdata' time_delta' out' st''
  assume next_it: "monitor_iteration g r True sensitivity st' rdata' time_delta' = Inr (out', st'')"
    and same: "take 1024 rdata' = take 1024 rdata"
  from monitor_iteration_Inr [OF assms]
  have st': "st' = \<lparr> last_rdata = take 1024 rdata, first_time = False \<rparr>"
    by simp
  from monitor_iteration_Inr(1) [OF next_it] obtain acc' where
    loop: "bit_loop g r sensitivity st' rdata' time_delta' 0 (0, []) = Inr acc'"
    by blast
  have "\<not> display r sensitivity st' rdata' i" if "i \<in> set [0..<nat (boundary_bit_count g)]" for i
  proof -
    from that have "int i < boundary_bit_count g" by simp
    from bit_loop_bounds [OF loop _ this] have "i < 8192"
      by (simp add: MAX_BOUNDARY_BITS_def)
    then have "i div 8 < 1024"
      by presburger
    then have "take 1024 rdata' ! (i div 8) = rdata' ! (i div 8)"
      by simp
    with same have "last_rdata st' ! (i div 8) = rdata' ! (i div 8)"
      by (simp add: st')
    then show ?thesis
      by (simp add: display_def st')
  qed
  then have "filter (display r sensitivity st' rdata') [0..<nat (boundary_bit_count g)] = []"
    by (simp add: filter_empty_conv del: set_upt)
  with monitor_iteration_reported [OF next_it] show "reported_bits out' = []"
    by simp
qed

lemmas monitor_defs = monitor_iteration_def bit_loop.simps value_of_def last_value_of_def
  MAX_BOUNDARY_BITS_def globals0_def resolver0_def

theorem display_rule_witness:
  "\<exists>out st' out' st''.
     monitor_iteration dup_tables dup_resolver True None
       \<lparr> last_rdata = idle_capture, first_time = True \<rparr> idle_capture 5 = Inr (out, st')
     \<and> reported_bits out = [0]
     \<and> monitor_iteration dup_tables dup_resolver True None st' idle_capture 9 = Inr (out', st'')
     \<and> reported_bits out' = []"
proof -
  have first: "monitor_iteration dup_tables dup_resolver True None
      \<lparr> last_rdata = idle_capture, first_time = True \<rparr> idle_capture 5
    = Inr ([SignalsChanged 5, BitReport 0 ''IO_A3'' ''A3'' ''SIG2'' 1],
           \<lparr> last_rdata = idle_capture, first_time = False \<rparr>)"
    by (simp add: dup_tables_def dup_resolver_def idle_capture_def monitor_defs)
  have second: "monitor_iteration dup_tables dup_resolver True None
      \<lparr> last_rdata = idle_capture, first_time = False \<rparr> idle_capture 9
    = Inr ([], \<lparr> last_rdata = idle_capture, first_time = False \<rparr>)"
    by (simp add: dup_tables_def dup_resolver_def idle_capture_def monitor_defs)
  from display_rule [OF first]
  have "reported_bits [SignalsChanged 5, BitReport 0 ''IO_A3'' ''A3'' ''SIG2'' 1] = [0]"
    by (simp add: dup_tables_def dup_resolver_def resolver0_def globals0_def)
  moreover from display_rule [OF first] second have "reported_bits [] = []"
    by blast
  ultimately show ?thesis
    using first second by simp
qed

lemma monitor_iteration_dump:
  "1024 \<le> length rdata \<Longrightarrow>
   monitor_iteration g r False sensitivity st rdata time_delta
     = Inr ([DumpBytes 0 ''boundary data'' (take 256 rdata) 256],
            \<lparr> last_rdata = take 1024 rdata, first_time = False \<rparr>)"
  by (simp add: monitor_iteration_def dump_bytes_def)

lemma monitor_run_dump:
  assumes "\<forall>c \<in> set captures. 1024 \<le> length (fst c)"
  shows "monitor_run g r False sensitivity st captures
     = Inr (map (\<lambda>c. DumpBytes 0 ''boundary data'' (take 256 (fst c)) 256) captures)"
  using assms
proof (induction captures arbitrary: st)
  case Nil
  show ?case by simp
next
  case (Cons c cs)
  from Cons.prems have "1024 \<le> length (fst c)" and "\<forall>c \<in> set cs. 1024 \<le> length (fst c)"
    by simp_all
  with Cons.IH show ?case
    by (simp add: monitor_iteration_dump)
qed

text \<open>
  Claim C6. When no layout file is named, every monitor iteration prints the raw dump of
  the first 256 bytes of its capture and nothing else: the per-bit loop is not entered.
\<close>

theorem raw_dump_without_layout:
  assumes "\<forall>c \<in> set captures. 1024 \<le> length (fst c)"
  shows "monitor_run g r False sensitivity st captures
     = Inr (map (\<lambda>c. DumpBytes 0 ''boundary data'' (take 256 (fst c)) 256) captures)"
  using assms by (rule monitor_run_dump)

theorem raw_dump_without_layout_witness:
  "1024 \<le> length idle_capture
   \<and> monitor_run globals0 resolver0 False None \<lparr> last_rdata = idle_capture, first_time = True \<rparr>
        [(idle_capture, 3), (idle_capture, 8)]
      = Inr [DumpBytes 0 ''boundary data'' (replicate 256 0xFF) 256,
             DumpBytes 0 ''boundary data'' (replicate 256 0xFF) 256]"
proof -
  have len: "\<forall>c \<in> set [(idle_capture, 3), (idle_capture, 8 :: nat)]. 1024 \<le> length (fst c)"
    by (simp add: idle_capture_def)
  from raw_dump_without_layout [OF len] len show ?thesis
    by (simp add: idle_capture_def)
qed

lemma bit_loop_no_oob:
  "boundary_bit_count g \<le> int MAX_BOUNDARY_BITS \<Longrightarrow> 1024 \<le> length rdata \<Longrightarrow>
   1024 \<le> length (last_rdata st) \<Longrightarrow>
   bit_loop g r sensitivity st rdata time_delta k acc \<noteq> Inl OutOfBounds"
proof (induction g r sensitivity st rdata time_delta k acc rule: bit_loop.induct)
  case (1 g r sensitivity st rdata time_delta i acc)
  show ?case
  proof (cases "int i < boundary_bit_count g")
    case False
    then show ?thesis by (simp add: bit_loop.simps)
  next
    case True
    with "1.prems" have "i < 8192"
      by (simp add: MAX_BOUNDARY_BITS_def)
    then have "i div 8 < 1024"
      by presburger
    with "1.prems" \<open>i < 8192\<close> have inb: "\<not> (length rdata \<le> drop_bit 3 i
        \<or> length (last_rdata st) \<le> drop_bit 3 i \<or> MAX_BOUNDARY_BITS \<le> i)"
      by (simp add: index_split MAX_BOUNDARY_BITS_def)
    from "1.IH" [OF True inb] "1.prems" True inb show ?thesis
      by (subst bit_loop.simps) (auto split: option.splits)
  qed
qed

lemma bit_loop_past_end:
  assumes "int MAX_BOUNDARY_BITS < boundary_bit_count g"
  shows "bit_loop g r sensitivity st rdata time_delta MAX_BOUNDARY_BITS acc = Inl OutOfBounds"
  using assms by (subst bit_loop.simps) simp

lemma bit_loop_fails:
  assumes "int MAX_BOUNDARY_BITS < boundary_bit_count g"
  shows "\<exists>e. bit_loop g r sensitivity st rdata time_delta 0 acc = Inl e"
proof (cases "bit_loop g r sensitivity st rdata time_delta 0 acc")
  case (Inl e)
  then show ?thesis by simp
next
  case (Inr acc')
  from bit_loop_bounds [OF Inr, of MAX_BOUNDARY_BITS] assms show ?thesis
    by simp
qed

section \<open>Properties of parse\_bsdl\<close>

lemma fgets_chunk_Cons:
  "fgets_chunk n (c # cs) =
     (if n = 0 then [] else if c = CHR 0x0A then [c] else c # fgets_chunk (n - 1) cs)"
  by (cases n) simp_all

lemma fgets_chunk_Nil: "fgets_chunk n [] = []"
  by (cases n) simp_all

lemmas scan_defs = sscanf_header_def scan_header_name_def scan_header_count_def scan_ws_def
  scan_str_def scan_set_def scan_int_def isspace_c_def isdigit_c_def decimal_def fits_int_def
  sscanf_bit_def scan_bit_number_def scan_bit_cell_def scan_bit_field_def scan_bit_fields_def
  blank_def

lemmas bsdl_defs = parse_bsdl_def parse_bsdl_loop.simps parse_bsdl_line_def file_lines.simps
  fgets_chunk_Cons fgets_chunk_Nil NUL_def MAX_BOUNDARY_BITS_def globals0_def layout_header_def
  headers_def stored_names_def

lemma blank_line_no_header:
  assumes "scan_set blank line \<noteq> None"
  shows "sscanf_header line = Inr NoItem"
proof -
  from assms obtain c cs where "line = c # cs" "blank c"
    by (cases line) (auto simp: scan_set_def split: if_splits)
  then have "scan_lit ''attribute'' line = None"
    by (auto simp: blank_def)
  then show ?thesis
    by (simp add: sscanf_header_def scan_header_name_def)
qed

lemma bit_line_no_header:
  assumes "sscanf_bit line = Inr (Some b)"
  shows "sscanf_header line = Inr NoItem"
proof -
  from assms have "scan_set blank line \<noteq> None"
    by (cases "scan_set blank line")
       (auto simp: sscanf_bit_def scan_bit_number_def split: option.splits if_splits)
  then show ?thesis
    by (rule blank_line_no_header)
qed

lemma header_line_no_bit:
  assumes "sscanf_header line \<noteq> Inr NoItem"
  shows "sscanf_bit line = Inr None"
proof (cases "scan_set blank line")
  case None
  then show ?thesis
    by (simp add: sscanf_bit_def scan_bit_number_def)
next
  case (Some b)
  with blank_line_no_header [of line] assms show ?thesis
    by simp
qed

text \<open>
  Claim C7. A line that the bit-definition \<^verbatim>\<open>sscanf\<close> converts in full is stored at its
  index, over whatever was there, if and only if the index is at least 0 and below
  \<^verbatim>\<open>MAX_BOUNDARY_BITS\<close>; otherwise the line changes nothing, prints nothing and is no
  error.
\<close>
theorem bit_record_stored_iff_in_range:
  assumes "sscanf_bit line = Inr (Some (bit_number, bit_name, bit_type, bit_default))"
  shows "parse_bsdl_line line (g, out) =
     Inr (if 0 \<le> bit_number \<and> bit_number < int MAX_BOUNDARY_BITS
          then g\<lparr> boundary_bit_type := (boundary_bit_type g)(nat bit_number \<mapsto> bit_type),
                   boundary_bit_fullname := (boundary_bit_fullname g)(nat bit_number \<mapsto> bit_name),
                   boundary_bit_pin :=
                     (boundary_bit_pin g)(nat bit_number \<mapsto> bit_pin_loop bit_name bit_name) \<rparr>
          else g, out)"
  using assms bit_line_no_header [OF assms]
  by (simp add: parse_bsdl_line_def Let_def)

theorem bit_record_stored_iff_in_range_witness:
  "sscanf_bit past_end_line = Inr (Some (8192, ''IO_A3'', ''input'', ''X''))
   \<and> parse_bsdl_line past_end_line (globals0, []) = Inr (globals0, [])
   \<and> sscanf_bit bit3_line = Inr (Some (3, ''U1_DATA_PIN_A3'', ''input'', ''X''))
   \<and> parse_bsdl_line bit3_line (globals0, [])
       = Inr (globals0\<lparr> boundary_bit_type := [3 \<mapsto> ''input''],
                         boundary_bit_fullname := [3 \<mapsto> ''U1_DATA_PIN_A3''],
                         boundary_bit_pin := [3 \<mapsto> ''A3''] \<rparr>, [])"
proof -
  have past: "sscanf_bit past_end_line = Inr (Some (8192, ''IO_A3'', ''input'', ''X''))"
    by (simp add: past_end_line_def scan_defs)
  have bit3: "sscanf_bit bit3_line = Inr (Some (3, ''U1_DATA_PIN_A3'', ''input'', ''X''))"
    by (simp add: bit3_line_def scan_defs)
  from bit_record_stored_iff_in_range [OF past, of globals0 "[]"]
    bit_record_stored_iff_in_range [OF bit3, of globals0 "[]"] past bit3
  show ?thesis
    by (simp add: MAX_BOUNDARY_BITS_def globals0_def)
qed

lemma header_line_step:
  assumes "sscanf_header line = Inr h"
    and "h \<noteq> NoItem"
  shows "parse_bsdl_line line (g, out) =
     Inr (case h of
            NoItem \<Rightarrow> (g, out)
          | OneItem name \<Rightarrow> (g\<lparr> part_name := name \<rparr>, out)
          | TwoItems name n \<Rightarrow>
              (g\<lparr> part_name := name, boundary_bit_count := n \<rparr>, out @ [AssumedPart name n]))"
  using assms header_line_no_bit [of line]
  by (cases h) (simp_all add: parse_bsdl_line_def)

lemma parse_bsdl_line_header:
  assumes "parse_bsdl_line line acc = Inr acc'"
  shows "boundary_bit_count (fst acc')
       = last (boundary_bit_count (fst acc) # map snd (headers [line]))"
    and "part_name (fst acc') = last (part_name (fst acc) # stored_names [line])"
    and "snd acc' = snd acc @ map (\<lambda>h. AssumedPart (fst h) (snd h)) (headers [line])"
proof -
  from assms obtain h b where h: "sscanf_header line = Inr h" and b: "sscanf_bit line = Inr b"
    by (cases "sscanf_header line"; cases "sscanf_bit line") (simp_all add: parse_bsdl_line_def)
  from assms h b
  have "boundary_bit_count (fst acc')
       = last (boundary_bit_count (fst acc) # map snd (headers [line]))
    \<and> part_name (fst acc') = last (part_name (fst acc) # stored_names [line])
    \<and> snd acc' = snd acc @ map (\<lambda>h. AssumedPart (fst h) (snd h)) (headers [line])"
    by (cases h; cases b)
       (auto simp: parse_bsdl_line_def Let_def headers_def stored_names_def split: if_splits)
  then show "boundary_bit_count (fst acc')
       = last (boundary_bit_count (fst acc) # map snd (headers [line]))"
    and "part_name (fst acc') = last (part_name (fst acc) # stored_names [line])"
    and "snd acc' = snd acc @ map (\<lambda>h. AssumedPart (fst h) (snd h)) (headers [line])"
    by simp_all
qed

lemma headers_Cons: "headers (l # ls) = headers [l] @ headers ls"
  by (simp add: headers_def)

lemma stored_names_Cons: "stored_names (l # ls) = stored_names [l] @ stored_names ls"
  by (simp add: stored_names_def)

lemma last_chain: "last (last (x # xs) # ys) = last (x # xs @ ys)"
  by (cases ys) simp_all

lemma parse_bsdl_loop_header:
  "parse_bsdl_loop f acc = Inr acc' \<Longrightarrow>
   boundary_bit_count (fst acc')
       = last (boundary_bit_count (fst acc) # map snd (headers (file_lines f)))
   \<and> part_name (fst acc') = last (part_name (fst acc) # stored_names (file_lines f))
   \<and> snd acc' = snd acc @ map (\<lambda>h. AssumedPart (fst h) (snd h)) (headers (file_lines f))"
proof (induction f acc rule: parse_bsdl_loop.induct)
  case (1 f acc)
  show ?case
  proof (cases "takeWhile (\<lambda>c. c \<noteq> NUL) (fgets_chunk 1023 f) = []")
    case True
    with "1.prems" have "acc' = acc"
      by (subst (asm) parse_bsdl_loop.simps) simp
    moreover from True have "file_lines f = []"
      by (subst file_lines.simps) simp
    ultimately show ?thesis
      by (simp add: headers_def stored_names_def)
  next
    case False
    define l where "l = takeWhile (\<lambda>c. c \<noteq> NUL) (fgets_chunk 1023 f)"
    define f' where "f' = drop (length (fgets_chunk 1023 f)) f"
    from False have lines: "file_lines f = l # file_lines f'"
      by (subst file_lines.simps) (simp add: l_def f'_def)
    from False "1.prems" obtain acc1 where
      step: "parse_bsdl_line l acc = Inr acc1"
      and rest: "parse_bsdl_loop f' acc1 = Inr acc'"
      by (subst (asm) parse_bsdl_loop.simps) (auto simp: l_def f'_def split: sum.splits)
    from "1.IH" [OF False step [unfolded l_def] rest [unfolded f'_def]]
    have ih: "boundary_bit_count (fst acc')
         = last (boundary_bit_count (fst acc1) # map snd (headers (file_lines f')))"
      "part_name (fst acc') = last (part_name (fst acc1) # stored_names (file_lines f'))"
      "snd acc' = snd acc1 @ map (\<lambda>h. AssumedPart (fst h) (snd h)) (headers (file_lines f'))"
      by (simp_all add: f'_def)
    have split: "headers (file_lines f) = headers [l] @ headers (file_lines f')"
      "stored_names (file_lines f) = stored_names [l] @ stored_names (file_lines f')"
      unfolding lines by (rule headers_Cons, rule stored_names_Cons)
    from parse_bsdl_line_header [OF step] ih show ?thesis
      by (simp only: split last_chain map_append append_assoc simp_thms)
  qed
qed

lemma stored_names_headers:
  "\<forall>l \<in> set ls. \<forall>name. sscanf_header l \<noteq> Inr (OneItem name) \<Longrightarrow>
   stored_names ls = map fst (headers ls)"
proof (induction ls)
  case Nil
  show ?case by (simp add: stored_names_def headers_def)
next
  case (Cons l ls)
  then have "stored_names ls = map fst (headers ls)"
    and one: "\<forall>name. sscanf_header l \<noteq> Inr (OneItem name)"
    by simp_all
  moreover from one have "stored_names [l] = map fst (headers [l])"
    by (auto simp: stored_names_def headers_def split: sum.splits header_scan.splits)
  ultimately show ?case
    by (simp add: stored_names_Cons [of l ls] headers_Cons [of l ls])
qed

lemma headers_stored: "headers ls \<noteq> [] \<Longrightarrow> stored_names ls \<noteq> []"
proof (induction ls)
  case Nil
  then show ?case by (simp add: headers_def)
next
  case (Cons l ls)
  show ?case
  proof (cases "headers [l] = []")
    case True
    with Cons show ?thesis
      by (simp add: stored_names_Cons [of l ls] headers_Cons [of l ls])
  next
    case False
    then have "stored_names [l] \<noteq> []"
      by (auto simp: stored_names_def headers_def split: sum.splits header_scan.splits)
    then show ?thesis
      by (simp add: stored_names_Cons [of l ls])
  qed
qed

text \<open>
  Claim C8, as the spec states it, fails: a line that matches the header pattern as far
  as the identifier only makes \<^verbatim>\<open>sscanf\<close> return 1 after it has overwritten
  \<^verbatim>\<open>part_name\<close>. After the file below the only matching header statement is that of
  \<open>A\<close> with 5 bits, and \<^verbatim>\<open>part_name\<close> is \<open>B\<close>.
\<close>
theorem part_name_clobbered_counterexample:
  "headers (file_lines clobbered_bsdl) = [(''A'', 5)]
   \<and> layout_header (parse_bsdl (File clobbered_bsdl) (globals0, []))
       = Inr (''B'', 5, [AssumedPart ''A'' 5])"
  by (simp add: clobbered_bsdl_def bsdl_defs scan_defs)

text \<open>
  What \<^verbatim>\<open>part_name\<close> holds after any layout file in which the header \<^verbatim>\<open>sscanf\<close>
  converted an identifier: the identifier converted last.
\<close>

lemma part_name_last_stored:
  assumes "parse_bsdl_loop f (g, out) = Inr (g', out')" and "stored_names (file_lines f) \<noteq> []"
  shows "part_name g' = last (stored_names (file_lines f))"
  using parse_bsdl_loop_header [OF assms(1)] assms(2) by simp

text \<open>
  Claim C8, amended. After a layout file with one or more matching header statements has
  been parsed, \<^verbatim>\<open>boundary_bit_count\<close> is the count of the last matching header
  statement, and every matching header statement has been reported by one progress
  message, in file order. When no line of the file matches the header pattern as far as
  the identifier only, \<^verbatim>\<open>part_name\<close> is the identifier of the last matching header
  statement.
\<close>

theorem header_last_match:
  assumes "parse_bsdl_loop f (g, out) = Inr (g', out')" and "headers (file_lines f) \<noteq> []"
  shows "boundary_bit_count g' = snd (last (headers (file_lines f)))
     \<and> out' = out @ map (\<lambda>h. AssumedPart (fst h) (snd h)) (headers (file_lines f))
     \<and> ((\<forall>l \<in> set (file_lines f). \<forall>name. sscanf_header l \<noteq> Inr (OneItem name))
          \<longrightarrow> part_name g' = fst (last (headers (file_lines f))))"
proof -
  from parse_bsdl_loop_header [OF assms(1)]
  have c: "boundary_bit_count g' = last (boundary_bit_count g # map snd (headers (file_lines f)))"
    and o: "out' = out @ map (\<lambda>h. AssumedPart (fst h) (snd h)) (headers (file_lines f))"
    by simp_all
  from c assms(2) have "boundary_bit_count g' = snd (last (headers (file_lines f)))"
    by (simp add: last_map)
  moreover have "part_name g' = fst (last (headers (file_lines f)))"
    if "\<forall>l \<in> set (file_lines f). \<forall>name. sscanf_header l \<noteq> Inr (OneItem name)"
    using stored_names_headers [OF that] assms(2)
      part_name_last_stored [OF assms(1) headers_stored [OF assms(2)]]
    by (simp add: last_map)
  ultimately show ?thesis
    using o by blast
qed

theorem header_last_match_witness:
  "\<exists>g' out'. parse_bsdl_loop repeated_bsdl (globals0, []) = Inr (g', out')
     \<and> map sscanf_header (file_lines repeated_bsdl)
         = [Inr (TwoItems ''A'' 5), Inr (TwoItems ''B'' 7)]
     \<and> headers (file_lines repeated_bsdl) = [(''A'', 5), (''B'', 7)]
     \<and> boundary_bit_count g' = 7 \<and> part_name g' = ''B''
     \<and> out' = [AssumedPart ''A'' 5, AssumedPart ''B'' 7]"
proof -
  obtain g' out' where run: "parse_bsdl_loop repeated_bsdl (globals0, []) = Inr (g', out')"
    by (simp add: repeated_bsdl_def bsdl_defs scan_defs)
  have scans: "map sscanf_header (file_lines repeated_bsdl)
      = [Inr (TwoItems ''A'' 5), Inr (TwoItems ''B'' 7)]"
    by (simp add: repeated_bsdl_def bsdl_defs scan_defs)
  have hs: "headers (file_lines repeated_bsdl) = [(''A'', 5), (''B'', 7)]"
    by (simp add: repeated_bsdl_def bsdl_defs scan_defs)
  have "\<forall>s \<in> set (map sscanf_header (file_lines repeated_bsdl)). \<forall>name. s \<noteq> Inr (OneItem name)"
    unfolding scans by simp
  then have full:
    "\<forall>l \<in> set (file_lines repeated_bsdl). \<forall>name. sscanf_header l \<noteq> Inr (OneItem name)"
    by simp
  from hs have ne: "headers (file_lines repeated_bsdl) \<noteq> []"
    by simp
  from header_last_match [OF run ne] full
  have "boundary_bit_count g' = snd (last (headers (file_lines repeated_bsdl)))"
    and "part_name g' = fst (last (headers (file_lines repeated_bsdl)))"
    and "out' = [] @ map (\<lambda>h. AssumedPart (fst h) (snd h)) (headers (file_lines repeated_bsdl))"
    by blast+
  with hs have "boundary_bit_count g' = 7" "part_name g' = ''B''"
    "out' = [AssumedPart ''A'' 5, AssumedPart ''B'' 7]"
    by simp_all
  with run hs scans show ?thesis
    by simp
qed

section \<open>The declared bit count as a loop bound\<close>

text \<open>
  Claim C9. The count of a matching header statement is stored as it is, whatever its
  value. The resolver loop and the per-bit loop of the monitor run up to it: with a count
  of at most \<^verbatim>\<open>MAX_BOUNDARY_BITS\<close> (and buffers of 1024 bytes, and at most
  \<^verbatim>\<open>MAX_PINS\<close> pin mappings) no access is out of bounds; with a larger count neither
  loop finishes, and the pass for index \<^verbatim>\<open>MAX_BOUNDARY_BITS\<close> indexes past the arrays.
\<close>
theorem boundary_bit_count_unchecked:
  "(sscanf_header line = Inr (TwoItems name n) \<longrightarrow>
      parse_bsdl_line line (g0, out)
        = Inr (g0\<lparr> part_name := name, boundary_bit_count := n \<rparr>, out @ [AssumedPart name n]))
   \<and> (boundary_bit_count g \<le> int MAX_BOUNDARY_BITS \<and> pin_count g \<le> int MAX_PINS \<longrightarrow>
        resolver_loop g sensitivity 0 acc \<noteq> Inl OutOfBounds)
   \<and> (boundary_bit_count g \<le> int MAX_BOUNDARY_BITS \<and> 1024 \<le> length rdata
        \<and> length (last_rdata st) = 1024 \<longrightarrow>
        bit_loop g r sensitivity st rdata time_delta 0 macc \<noteq> Inl OutOfBounds)
   \<and> (int MAX_BOUNDARY_BITS < boundary_bit_count g \<longrightarrow>
        resolver_loop g sensitivity MAX_BOUNDARY_BITS acc = Inl OutOfBounds
        \<and> (\<exists>e. resolver_loop g sensitivity 0 acc = Inl e)
        \<and> bit_loop g r sensitivity st rdata time_delta MAX_BOUNDARY_BITS macc = Inl OutOfBounds
        \<and> (\<exists>e. bit_loop g r sensitivity st rdata time_delta 0 macc = Inl e))"
proof (intro conjI impI)
  assume "sscanf_header line = Inr (TwoItems name n)"
  from header_line_step [OF this, of g0 out]
  show "parse_bsdl_line line (g0, out)
      = Inr (g0\<lparr> part_name := name, boundary_bit_count := n \<rparr>, out @ [AssumedPart name n])"
    by simp
next
  assume "boundary_bit_count g \<le> int MAX_BOUNDARY_BITS \<and> pin_count g \<le> int MAX_PINS"
  then show "resolver_loop g sensitivity 0 acc \<noteq> Inl OutOfBounds"
    by (simp add: resolver_loop_no_oob)
next
  assume "boundary_bit_count g \<le> int MAX_BOUNDARY_BITS \<and> 1024 \<le> length rdata
        \<and> length (last_rdata st) = 1024"
  then show "bit_loop g r sensitivity st rdata time_delta 0 macc \<noteq> Inl OutOfBounds"
    by (simp add: bit_loop_no_oob)
next
  assume over: "int MAX_BOUNDARY_BITS < boundary_bit_count g"
  then show "resolver_loop g sensitivity MAX_BOUNDARY_BITS acc = Inl OutOfBounds"
    by (rule resolver_loop_past_end)
  from over show "\<exists>e. resolver_loop g sensitivity 0 acc = Inl e"
    by (rule resolver_loop_fails)
  from over
  show "bit_loop g r sensitivity st rdata time_delta MAX_BOUNDARY_BITS macc = Inl OutOfBounds"
    by (rule bit_loop_past_end)
  from over show "\<exists>e. bit_loop g r sensitivity st rdata time_delta 0 macc = Inl e"
    by (rule bit_loop_fails)
qed

theorem boundary_bit_count_unchecked_witness:
  "sscanf_header oversize_header = Inr (TwoItems ''XC7'' 9000)
   \<and> parse_bsdl_line oversize_header (dup_tables, [])
       = Inr (dup_tables\<lparr> part_name := ''XC7'', boundary_bit_count := 9000 \<rparr>,
              [AssumedPart ''XC7'' 9000])
   \<and> boundary_bit_count dup_tables \<le> int MAX_BOUNDARY_BITS \<and> pin_count dup_tables \<le> int MAX_PINS
   \<and> 1024 \<le> length idle_capture
   \<and> resolver_loop dup_tables None 0 (resolver0, []) \<noteq> Inl OutOfBounds
   \<and> bit_loop dup_tables dup_resolver None \<lparr> last_rdata = idle_capture, first_time = True \<rparr>
        idle_capture 5 0 (0, []) \<noteq> Inl OutOfBounds
   \<and> int MAX_BOUNDARY_BITS
        < boundary_bit_count (dup_tables\<lparr> part_name := ''XC7'', boundary_bit_count := 9000 \<rparr>)
   \<and> resolver_loop (dup_tables\<lparr> part_name := ''XC7'', boundary_bit_count := 9000 \<rparr>) None
        MAX_BOUNDARY_BITS (resolver0, []) = Inl OutOfBounds
   \<and> bit_loop (dup_tables\<lparr> part_name := ''XC7'', boundary_bit_count := 9000 \<rparr>) dup_resolver None
        \<lparr> last_rdata = idle_capture, first_time = True \<rparr> idle_capture 5 MAX_BOUNDARY_BITS (0, [])
       = Inl OutOfBounds"
proof -
  have hdr: "sscanf_header oversize_header = Inr (TwoItems ''XC7'' 9000)"
    by (simp add: oversize_header_def scan_defs)
  have small: "boundary_bit_count dup_tables \<le> int MAX_BOUNDARY_BITS"
    "pin_count dup_tables \<le> int MAX_PINS" "1024 \<le> length idle_capture"
    "length (last_rdata \<lparr> last_rdata = idle_capture, first_time = True \<rparr>) = 1024"
    by (simp_all add: dup_tables_def globals0_def MAX_BOUNDARY_BITS_def MAX_PINS_def
          idle_capture_def)
  have big: "int MAX_BOUNDARY_BITS
      < boundary_bit_count (dup_tables\<lparr> part_name := ''XC7'', boundary_bit_count := 9000 \<rparr>)"
    by (simp add: MAX_BOUNDARY_BITS_def)
  note small_case = boundary_bit_count_unchecked [of oversize_header "''XC7''" 9000 dup_tables "[]"
      dup_tables None "(resolver0, [])" idle_capture
      "\<lparr> last_rdata = idle_capture, first_time = True \<rparr>" dup_resolver 5 "(0, [])"]
  note big_case = boundary_bit_count_unchecked [of oversize_header "''XC7''" 9000 dup_tables "[]"
      "dup_tables\<lparr> part_name := ''XC7'', boundary_bit_count := 9000 \<rparr>" None "(resolver0, [])"
      idle_capture "\<lparr> last_rdata = idle_capture, first_time = True \<rparr>" dup_resolver 5 "(0, [])"]
  from small_case hdr
  have "parse_bsdl_line oversize_header (dup_tables, [])
       = Inr (dup_tables\<lparr> part_name := ''XC7'', boundary_bit_count := 9000 \<rparr>,
              [AssumedPart ''XC7'' 9000])"
    by simp
  moreover from small_case small
  have "resolver_loop dup_tables None 0 (resolver0, []) \<noteq> Inl OutOfBounds"
    "bit_loop dup_tables dup_resolver None \<lparr> last_rdata = idle_capture, first_time = True \<rparr>
        idle_capture 5 0 (0, []) \<noteq> Inl OutOfBounds"
    by blast+
  moreover from big_case big
  have "resolver_loop (dup_tables\<lparr> part_name := ''XC7'', boundary_bit_count := 9000 \<rparr>) None
        MAX_BOUNDARY_BITS (resolver0, []) = Inl OutOfBounds"
    "bit_loop (dup_tables\<lparr> part_name := ''XC7'', boundary_bit_count := 9000 \<rparr>) dup_resolver None
        \<lparr> last_rdata = idle_capture, first_time = True \<rparr> idle_capture 5 MAX_BOUNDARY_BITS (0, [])
       = Inl OutOfBounds"
    by blast+
  ultimately show ?thesis
    using hdr small big by blast
qed

section \<open>Properties of parse\_xdc\<close>

lemma add_pin_Inr:
  assumes "0 \<le> pin_count g" and "pin_count g < int MAX_PINS"
  shows "add_pin m g
     = Inr (g\<lparr> pin_names := (pin_names g)(nat (pin_count g) \<mapsto> fst m),
                signal_names := (signal_names g)(nat (pin_count g) \<mapsto> snd m),
                pin_count := pin_count g + 1 \<rparr>)"
  using assms by (simp add: add_pin_def)

lemma add_pin_full: "int MAX_PINS \<le> pin_count g \<Longrightarrow> add_pin m g = Inl OutOfBounds"
  by (simp add: add_pin_def)

lemma parse_xdc_loop_scan:
  "xdc_scan f line = Inr ms \<Longrightarrow> 0 \<le> pin_count g \<Longrightarrow> pin_count g \<le> int MAX_PINS \<Longrightarrow>
   (pin_count g + int (length ms) \<le> int MAX_PINS \<longrightarrow>
      (\<exists>g'. parse_xdc_loop f line g = Inr g'
           \<and> pin_count g' = pin_count g + int (length ms)
           \<and> (\<forall>k < length ms. pin_names g' (nat (pin_count g) + k) = Some (fst (ms ! k))
                 \<and> signal_names g' (nat (pin_count g) + k) = Some (snd (ms ! k)))
           \<and> (\<forall>j < nat (pin_count g). pin_names g' j = pin_names g j
                 \<and> signal_names g' j = signal_names g j)))
   \<and> (\<not> pin_count g + int (length ms) \<le> int MAX_PINS \<longrightarrow>
        parse_xdc_loop f line g = Inl OutOfBounds)"
proof (induction f line g arbitrary: ms rule: parse_xdc_loop.induct)
  case (1 f line g)
  show ?case
  proof (cases "fgets_chunk 1023 f = [] \<or> hd (fgets_chunk 1023 f) = NUL")
    case True
    with "1.prems"(1) have "ms = []"
      by (subst (asm) xdc_scan.simps) (auto split: if_splits)
    moreover from True have "parse_xdc_loop f line g = Inr g"
      by (subst parse_xdc_loop.simps) auto
    ultimately show ?thesis
      using "1.prems"(2,3) by simp
  next
    case False
    then have ne: "fgets_chunk 1023 f \<noteq> []" and nn: "hd (fgets_chunk 1023 f) \<noteq> NUL"
      by simp_all
    define f' where "f' = drop (length (fgets_chunk 1023 f)) f"
    from ne nn "1.prems"(1) obtain lm ms' where
      lm: "xdc_mapping (fgets_into line (fgets_chunk 1023 f)) = Inr lm"
      and scan': "xdc_scan f' (fst lm) = Inr ms'"
      and ms: "ms = (case snd lm of None \<Rightarrow> [] | Some m \<Rightarrow> [m]) @ ms'"
      by (subst (asm) xdc_scan.simps) (auto simp: f'_def split: sum.splits)
    show ?thesis
    proof (cases "snd lm")
      case None
      with lm have step: "parse_xdc_line (fgets_into line (fgets_chunk 1023 f)) g = Inr (fst lm, g)"
        by (simp add: parse_xdc_line_def)
      with ne nn have loop: "parse_xdc_loop f line g = parse_xdc_loop f' (fst lm) g"
        by (subst parse_xdc_loop.simps) (simp add: f'_def)
      from "1.IH" [OF ne nn step, of ms'] scan' "1.prems"(2,3)
      have "(pin_count g + int (length ms') \<le> int MAX_PINS \<longrightarrow>
        (\<exists>g'. parse_xdc_loop f' (fst lm) g = Inr g'
           \<and> pin_count g' = pin_count g + int (length ms')
           \<and> (\<forall>k < length ms'. pin_names g' (nat (pin_count g) + k) = Some (fst (ms' ! k))
                 \<and> signal_names g' (nat (pin_count g) + k) = Some (snd (ms' ! k)))
           \<and> (\<forall>j < nat (pin_count g). pin_names g' j = pin_names g j
                 \<and> signal_names g' j = signal_names g j)))
        \<and> (\<not> pin_count g + int (length ms') \<le> int MAX_PINS \<longrightarrow>
             parse_xdc_loop f' (fst lm) g = Inl OutOfBounds)"
        by (simp add: f'_def)
      with None ms show ?thesis
        unfolding loop by simp
    next
      case (Some m)
      with ms have ms: "ms = m # ms'" by simp
      show ?thesis
      proof (cases "pin_count g < int MAX_PINS")
        case False
        with lm Some
        have "parse_xdc_line (fgets_into line (fgets_chunk 1023 f)) g = Inl OutOfBounds"
          by (simp add: parse_xdc_line_def add_pin_full)
        with ne nn have "parse_xdc_loop f line g = Inl OutOfBounds"
          by (subst parse_xdc_loop.simps) simp
        with False ms show ?thesis
          by simp
      next
        case True
        define g1 where "g1 = g\<lparr> pin_names := (pin_names g)(nat (pin_count g) \<mapsto> fst m),
            signal_names := (signal_names g)(nat (pin_count g) \<mapsto> snd m),
            pin_count := pin_count g + 1 \<rparr>"
        from lm Some add_pin_Inr [OF "1.prems"(2) True, of m]
        have step: "parse_xdc_line (fgets_into line (fgets_chunk 1023 f)) g = Inr (fst lm, g1)"
          by (simp add: parse_xdc_line_def g1_def)
        with ne nn have loop: "parse_xdc_loop f line g = parse_xdc_loop f' (fst lm) g1"
          by (subst parse_xdc_loop.simps) (simp add: f'_def)
        have g1: "pin_count g1 = pin_count g + 1" "0 \<le> pin_count g1"
          "pin_count g1 \<le> int MAX_PINS"
          "nat (pin_count g1) = Suc (nat (pin_count g))"
          "pin_names g1 (nat (pin_count g)) = Some (fst m)"
          "signal_names g1 (nat (pin_count g)) = Some (snd m)"
          "\<And>j. j < nat (pin_count g) \<Longrightarrow> pin_names g1 j = pin_names g j"
          "\<And>j. j < nat (pin_count g) \<Longrightarrow> signal_names g1 j = signal_names g j"
          using "1.prems"(2) True by (simp_all add: g1_def)
        from "1.IH" [OF ne nn step, of ms'] scan' g1(2,3)
        have ih: "(pin_count g1 + int (length ms') \<le> int MAX_PINS \<longrightarrow>
          (\<exists>g'. parse_xdc_loop f' (fst lm) g1 = Inr g'
             \<and> pin_count g' = pin_count g1 + int (length ms')
             \<and> (\<forall>k < length ms'. pin_names g' (nat (pin_count g1) + k) = Some (fst (ms' ! k))
                   \<and> signal_names g' (nat (pin_count g1) + k) = Some (snd (ms' ! k)))
             \<and> (\<forall>j < nat (pin_count g1). pin_names g' j = pin_names g1 j
                   \<and> signal_names g' j = signal_names g1 j)))
          \<and> (\<not> pin_count g1 + int (length ms') \<le> int MAX_PINS \<longrightarrow>
               parse_xdc_loop f' (fst lm) g1 = Inl OutOfBounds)"
          by (simp add: f'_def)
        show ?thesis
        proof (cases "pin_count g + int (length ms) \<le> int MAX_PINS")
          case False
          with ih ms g1(1) show ?thesis
            unfolding loop by simp
        next
          case fits: True
          with ih ms g1(1) obtain g' where
            run: "parse_xdc_loop f' (fst lm) g1 = Inr g'"
            and cnt: "pin_count g' = pin_count g1 + int (length ms')"
            and new: "\<And>k. k < length ms' \<Longrightarrow>
                pin_names g' (nat (pin_count g1) + k) = Some (fst (ms' ! k))
                \<and> signal_names g' (nat (pin_count g1) + k) = Some (snd (ms' ! k))"
            and old: "\<And>j. j < nat (pin_count g1) \<Longrightarrow>
                pin_names g' j = pin_names g1 j \<and> signal_names g' j = signal_names g1 j"
            by auto
          have "pin_names g' (nat (pin_count g) + k) = Some (fst (ms ! k))
              \<and> signal_names g' (nat (pin_count g) + k) = Some (snd (ms ! k))"
            if "k < length ms" for k
          proof (cases k)
            case 0
            with old [of "nat (pin_count g)"] g1 ms show ?thesis
              by simp
          next
            case (Suc k')
            with that ms have "k' < length ms'" by simp
            from new [OF this] Suc ms g1(4) show ?thesis
              by simp
          qed
          moreover have "pin_names g' j = pin_names g j \<and> signal_names g' j = signal_names g j"
            if "j < nat (pin_count g)" for j
            using old [of j] g1 that by simp
          ultimately show ?thesis
            unfolding loop using fits run cnt g1(1) ms by simp
        qed
      qed
    qed
  qed
qed

lemmas xdc_defs = xdc_mapping_def xdc_tokens_def xdc_trim_def strstr_def cstring_at_def
  fgets_into_def NUL_def pin_name_loop.simps signal_name_loop.simps skip_braces.simps
  trim_braces.simps

lemma pin_line_mapping:
  "\<exists>buf. xdc_mapping (fgets_into line pin_line) = Inr (buf, Some (''A3'', ''SIG1''))"
  by (simp add: pin_line_def xdc_defs)

lemma fgets_pin_line: "fgets_chunk 1023 (pin_line @ rest) = pin_line"
  by (simp add: pin_line_def fgets_chunk_Cons)

lemma xdc_scan_repeat:
  "xdc_scan (concat (replicate n pin_line)) line = Inr (replicate n (''A3'', ''SIG1''))"
proof (induction n arbitrary: line)
  case 0
  show ?case
    by (subst xdc_scan.simps) (simp add: fgets_chunk_Nil)
next
  case (Suc n)
  obtain buf where
    m: "xdc_mapping (fgets_into line pin_line) = Inr (buf, Some (''A3'', ''SIG1''))"
    using pin_line_mapping by blast
  have ne: "pin_line \<noteq> []" "hd pin_line \<noteq> NUL"
    by (simp_all add: pin_line_def NUL_def)
  have "xdc_scan (pin_line @ concat (replicate n pin_line)) line
      = Inr (replicate (Suc n) (''A3'', ''SIG1''))"
    by (subst xdc_scan.simps) (simp add: fgets_pin_line ne m Suc.IH)
  then show ?case
    by simp
qed

text \<open>
  Claim C10. Every mapping that a line yields is stored at index \<^verbatim>\<open>pin_count\<close>, which
  is then incremented, and nothing compares \<^verbatim>\<open>pin_count\<close> with \<^verbatim>\<open>MAX_PINS\<close>: when
  the mappings of the file fit into the tables, all of them are there after the parse, in
  file order; when they do not, no mapping is dropped and a write goes past the tables.
\<close>
theorem pin_table_unchecked:
  assumes "xdc_scan f line = Inr ms" and "0 \<le> pin_count g" and "pin_count g \<le> int MAX_PINS"
  shows "(pin_count g + int (length ms) \<le> int MAX_PINS \<longrightarrow>
      (\<exists>g'. parse_xdc_loop f line g = Inr g'
         \<and> pin_count g' = pin_count g + int (length ms)
         \<and> (\<forall>k < length ms. pin_names g' (nat (pin_count g) + k) = Some (fst (ms ! k))
               \<and> signal_names g' (nat (pin_count g) + k) = Some (snd (ms ! k)))))
   \<and> (int MAX_PINS < pin_count g + int (length ms) \<longrightarrow>
        parse_xdc_loop f line g = Inl OutOfBounds)"
  using parse_xdc_loop_scan [OF assms] by auto

theorem pin_table_unchecked_witness:
  "xdc_scan (concat (replicate 2 pin_line)) stack_bytes = Inr [(''A3'', ''SIG1''), (''A3'', ''SIG1'')]
   \<and> (\<exists>g'. parse_xdc_loop (concat (replicate 2 pin_line)) stack_bytes globals0 = Inr g'
         \<and> pin_count g' = 2
         \<and> pin_names g' 1 = Some ''A3'' \<and> signal_names g' 1 = Some ''SIG1'')
   \<and> length (replicate 4097 (''A3'', ''SIG1'')) = 4097
   \<and> xdc_scan (concat (replicate 4097 pin_line)) stack_bytes = Inr (replicate 4097 (''A3'', ''SIG1''))
   \<and> parse_xdc_loop (concat (replicate 4097 pin_line)) stack_bytes globals0 = Inl OutOfBounds"
proof -
  have g0: "0 \<le> pin_count globals0" "pin_count globals0 \<le> int MAX_PINS"
    by (simp_all add: globals0_def)
  have two: "xdc_scan (concat (replicate 2 pin_line)) stack_bytes
      = Inr [(''A3'', ''SIG1''), (''A3'', ''SIG1'')]"
    using xdc_scan_repeat [of 2 stack_bytes] by (simp add: numeral_2_eq_2)
  from pin_table_unchecked [OF two g0] obtain g' where
    "parse_xdc_loop (concat (replicate 2 pin_line)) stack_bytes globals0 = Inr g'"
    "pin_count g' = 2"
    "\<forall>k < 2. pin_names g' k = Some (fst ([(''A3'', ''SIG1''), (''A3'', ''SIG1'')] ! k))
        \<and> signal_names g' k = Some (snd ([(''A3'', ''SIG1''), (''A3'', ''SIG1'')] ! k))"
    by (auto simp: globals0_def MAX_PINS_def)
  then have small: "\<exists>g'. parse_xdc_loop (concat (replicate 2 pin_line)) stack_bytes globals0 = Inr g'
         \<and> pin_count g' = 2
         \<and> pin_names g' 1 = Some ''A3'' \<and> signal_names g' 1 = Some ''SIG1''"
    by force
  have many: "xdc_scan (concat (replicate 4097 pin_line)) stack_bytes
      = Inr (replicate 4097 (''A3'', ''SIG1''))"
    by (rule xdc_scan_repeat)
  from pin_table_unchecked [OF many g0]
  have "parse_xdc_loop (concat (replicate 4097 pin_line)) stack_bytes globals0 = Inl OutOfBounds"
    by (simp add: globals0_def MAX_PINS_def)
  with two small many show ?thesis
    by simp
qed

section \<open>The whole function\<close>

text \<open>
  The failing input of claim C5: a layout file that declares two bits and defines bit 0
  only. Whatever the stack holds and whatever the transport delivers, the call ends in the
  resolver.
\<close>

lemma absent_entry_run:
  "xilinx_boundaryscan None (Some (File gap_bsdl)) None globals0 line0 r0 last0 captures
     = Inl NullDeref"
  by (simp add: xilinx_boundaryscan_def load_tables_def gap_bsdl_def bsdl_defs scan_defs
        resolver_loop.simps resolve_bit_def signal_loop.simps strcmp_eq_def MAX_PINS_def)

text \<open>
  Without a layout file the three per-bit tables hold \<^verbatim>\<open>NULL\<close> throughout, so the
  resolver finishes only if \<^verbatim>\<open>boundary_bit_count\<close> is not positive: there are no bits
  for the monitor to report. From the state at program start, a call without any file
  prints the two warnings and then one dump per capture.
\<close>

lemma no_layout_no_bits:
  assumes "load_tables xdc None line0 g = Inr go"
    and "resolver_loop (fst go) sensitivity 0 acc = Inr acc'"
  shows "boundary_bit_count (fst go) \<le> 0"
proof (rule ccontr)
  assume "\<not> boundary_bit_count (fst go) \<le> 0"
  then have "int 0 < boundary_bit_count (fst go)"
    by simp
  from resolver_loop_entry [OF assms(2) _ this]
  have "boundary_bit_type (fst go) 0 \<noteq> None"
    by auto
  moreover from assms(1) have "boundary_bit_type (fst go) 0 = None"
    by (auto simp: load_tables_def Let_def MAX_BOUNDARY_BITS_def split: option.splits sum.splits)
  ultimately show False
    by simp
qed

lemma no_layout_run:
  assumes "\<forall>c \<in> set captures. 1024 \<le> length (fst c)"
  shows "xilinx_boundaryscan None None sensitivity globals0 line0 r0 last0 captures
     = Inr ([WarnNoXDC, WarnNoBSDL]
            @ map (\<lambda>c. DumpBytes 0 ''boundary data'' (take 256 (fst c)) 256) captures)"
proof -
  have "load_tables None None line0 globals0
      = Inr (globals0, [WarnNoXDC, WarnNoBSDL])"
    by (simp add: load_tables_def globals0_def fun_eq_iff)
  moreover have "resolver_loop globals0 sensitivity 0 (r0, [WarnNoXDC, WarnNoBSDL])
      = Inr (r0, [WarnNoXDC, WarnNoBSDL])"
    by (subst resolver_loop.simps) (simp add: globals0_def)
  ultimately show ?thesis
    using monitor_run_dump [OF assms]
    by (simp add: xilinx_boundaryscan_def)
qed

end
